theory Spec2Isabelle
  imports Complex_Main "HOL-Library.Log_Nat"
begin

section \<open>JavaScript numbers\<close>

text \<open>
  Every number of \<^verbatim>\<open>src/app/page.tsx\<close> is an ECMAScript Number: an IEEE 754 binary64
  value.  A finite value is the rational it denotes; the sign of a zero is not kept (the
  icon resizer never divides by a negative zero: its only zero divisor is an image width or
  height, an unsigned integer).  Arithmetic computes the exact rational result and rounds it
  to the nearest binary64 value, ties to even, with gradual underflow and overflow to the
  infinities.
\<close>

datatype number = NaN | PInf | NInf | Fin rat

definition pow2 :: "int \<Rightarrow> rat" where
  "pow2 e = (if 0 \<le> e then 2 ^ nat e else 1 / 2 ^ nat (- e))"

text \<open>The binary exponent of a positive rational: \<open>2 ^ ilog2 q \<le> q < 2 ^ (ilog2 q + 1)\<close>.\<close>

definition ilog2 :: "rat \<Rightarrow> int" where
  "ilog2 q = (let (a, b) = quotient_of q; k = bitlen a - bitlen b
              in if pow2 k \<le> q then k else k - 1)"

definition roundHalfEven :: "rat \<Rightarrow> int" where
  "roundHalfEven x = (let f = \<lfloor>x\<rfloor>; d = x - of_int f
                      in if d < 1 / 2 then f
                         else if 1 / 2 < d then f + 1
                         else if even f then f else f + 1)"

text \<open>
  The spacing of the binary64 values around \<open>x\<close>: 53 significant bits, and never finer than
  \<open>2 ^ - 1074\<close> (the subnormal range).
\<close>

definition quantum :: "rat \<Rightarrow> rat" where
  "quantum x = pow2 (max (ilog2 \<bar>x\<bar> - 52) (- 1074))"

definition nearest :: "rat \<Rightarrow> rat" where
  "nearest x = (if x = 0 then 0 else quantum x * of_int (roundHalfEven (x / quantum x)))"

definition rnd :: "rat \<Rightarrow> number" where
  "rnd x = (let r = nearest x
            in if 2 ^ 1024 \<le> r then PInf
               else if r \<le> - (2 ^ 1024) then NInf
               else Fin r)"

text \<open>The comparisons \<^verbatim>\<open><\<close> and \<^verbatim>\<open><=\<close>: false as soon as one side is NaN.\<close>

fun num_less :: "number \<Rightarrow> number \<Rightarrow> bool" where
  "num_less NaN _ = False"
| "num_less _ NaN = False"
| "num_less PInf _ = False"
| "num_less _ NInf = False"
| "num_less NInf _ = True"
| "num_less _ PInf = True"
| "num_less (Fin a) (Fin b) = (a < b)"

fun num_le :: "number \<Rightarrow> number \<Rightarrow> bool" where
  "num_le NaN _ = False"
| "num_le _ NaN = False"
| "num_le NInf _ = True"
| "num_le _ PInf = True"
| "num_le PInf _ = False"
| "num_le _ NInf = False"
| "num_le (Fin a) (Fin b) = (a \<le> b)"

fun num_div :: "number \<Rightarrow> number \<Rightarrow> number" where
  "num_div (Fin a) (Fin b) =
     (if b = 0 then (if a = 0 then NaN else if 0 < a then PInf else NInf) else rnd (a / b))"
| "num_div (Fin a) PInf = Fin 0"
| "num_div (Fin a) NInf = Fin 0"
| "num_div PInf (Fin b) = (if 0 \<le> b then PInf else NInf)"
| "num_div NInf (Fin b) = (if 0 \<le> b then NInf else PInf)"
| "num_div _ _ = NaN"

fun num_mul :: "number \<Rightarrow> number \<Rightarrow> number" where
  "num_mul (Fin a) (Fin b) = rnd (a * b)"
| "num_mul NaN _ = NaN"
| "num_mul _ NaN = NaN"
| "num_mul (Fin a) PInf = (if a = 0 then NaN else if 0 < a then PInf else NInf)"
| "num_mul (Fin a) NInf = (if a = 0 then NaN else if 0 < a then NInf else PInf)"
| "num_mul PInf (Fin b) = (if b = 0 then NaN else if 0 < b then PInf else NInf)"
| "num_mul NInf (Fin b) = (if b = 0 then NaN else if 0 < b then NInf else PInf)"
| "num_mul PInf PInf = PInf"
| "num_mul NInf NInf = PInf"
| "num_mul PInf NInf = NInf"
| "num_mul NInf PInf = NInf"

fun num_sub :: "number \<Rightarrow> number \<Rightarrow> number" where
  "num_sub (Fin a) (Fin b) = rnd (a - b)"
| "num_sub NaN _ = NaN"
| "num_sub _ NaN = NaN"
| "num_sub PInf PInf = NaN"
| "num_sub NInf NInf = NaN"
| "num_sub PInf _ = PInf"
| "num_sub NInf _ = NInf"
| "num_sub (Fin a) PInf = NInf"
| "num_sub (Fin a) NInf = PInf"

text \<open>\<^verbatim>\<open>Math.min\<close> of two arguments.\<close>

definition num_min :: "number \<Rightarrow> number \<Rightarrow> number" where
  "num_min a b = (if a = NaN \<or> b = NaN then NaN else if num_le a b then a else b)"

subsection \<open>Number to string\<close>

text \<open>
  \<^verbatim>\<open>Number::toString\<close> in radix 10, as a template literal applies it: the shortest
  decimal digit string \<open>s\<close> (of \<open>k\<close> digits) and exponent \<open>n\<close> with
  \<open>rnd (s * 10 ^ (n - k))\<close> the number itself; among the digit strings of that length the one
  nearest to the number.  Seventeen digits identify every binary64 value.
\<close>

fun digitsOf :: "nat \<Rightarrow> string" where
  "digitsOf n = (if n < 10 then [''0123456789'' ! n]
                 else digitsOf (n div 10) @ [''0123456789'' ! (n mod 10)])"

declare digitsOf.simps [simp del]

definition pow10 :: "int \<Rightarrow> rat" where
  "pow10 e = (if 0 \<le> e then 10 ^ nat e else 1 / 10 ^ nat (- e))"

text \<open>The decimal exponent \<open>n\<close> of a positive rational: \<open>10 ^ (n - 1) \<le> x < 10 ^ n\<close>.\<close>

definition decimalExponent :: "rat \<Rightarrow> int" where
  "decimalExponent x =
     (let c = (if 1 \<le> x then int (length (digitsOf (nat \<lfloor>x\<rfloor>)))
               else 1 - int (length (digitsOf (nat \<lfloor>1 / x\<rfloor>))))
      in if pow10 c \<le> x then c + 1 else c)"

definition digitsValue :: "nat \<times> int \<Rightarrow> nat \<Rightarrow> rat" where
  "digitsValue c k = of_nat (fst c) * pow10 (snd c - int k)"

definition candidates :: "rat \<Rightarrow> int \<Rightarrow> nat \<Rightarrow> (nat \<times> int) list" where
  "candidates x n k =
     (let lo = nat \<lfloor>x * pow10 (int k - n)\<rfloor>
      in filter (\<lambda>c. rnd (digitsValue c k) = Fin x)
           [(lo, n), if lo + 1 = 10 ^ k then (10 ^ (k - 1), n + 1) else (lo + 1, n)])"

fun closest :: "rat \<Rightarrow> nat \<Rightarrow> (nat \<times> int) list \<Rightarrow> nat \<times> int" where
  "closest x k [c1, c2] =
     (let d1 = \<bar>digitsValue c1 k - x\<bar>; d2 = \<bar>digitsValue c2 k - x\<bar>
      in if d1 < d2 then c1 else if d2 < d1 then c2 else if even (fst c1) then c1 else c2)"
| "closest x k (c # _) = c"
| "closest x k [] = (0, 0)"

fun shortest :: "rat \<Rightarrow> int \<Rightarrow> nat \<Rightarrow> nat \<Rightarrow> nat \<times> int" where
  "shortest x n k 0 = closest x k (candidates x n k)"
| "shortest x n k (Suc more) =
     (if candidates x n k = [] then shortest x n (Suc k) more
      else closest x k (candidates x n k))"

definition positiveToString :: "rat \<Rightarrow> string" where
  "positiveToString x =
     (let (s, n) = shortest x (decimalExponent x) 1 16;
          ds = digitsOf s; k = int (length ds)
      in if k \<le> n \<and> n \<le> 21 then ds @ replicate (nat (n - k)) CHR ''0''
         else if 0 < n \<and> n \<le> 21 then take (nat n) ds @ ''.'' @ drop (nat n) ds
         else if - 6 < n \<and> n \<le> 0 then ''0.'' @ replicate (nat (- n)) CHR ''0'' @ ds
         else let e = n - 1;
                  es = (if e < 0 then ''-'' else ''+'') @ digitsOf (nat \<bar>e\<bar>)
              in if k = 1 then ds @ ''e'' @ es
                 else take 1 ds @ ''.'' @ drop 1 ds @ ''e'' @ es)"

fun numberToString :: "number \<Rightarrow> string" where
  "numberToString NaN = ''NaN''"
| "numberToString PInf = ''Infinity''"
| "numberToString NInf = ''-Infinity''"
| "numberToString (Fin q) =
     (if q = 0 then ''0''
      else if q < 0 then ''-'' @ positiveToString (- q)
      else positiveToString q)"

section \<open>Strings\<close>

text \<open>
  A string is a list of characters; a \<^typ>\<open>char\<close> stands for the UTF-16 code unit of the
  same number (code units above 255 are outside the model).  The white space of
  \<^verbatim>\<open>String.prototype.trim\<close> and of \<^verbatim>\<open>parseInt\<close> in that range: TAB, LF, VT, FF, CR,
  space and the no-break space.
\<close>

definition isWhiteSpace :: "char \<Rightarrow> bool" where
  "isWhiteSpace c = (c \<in> {CHR 0x09, CHR 0x0A, CHR 0x0B, CHR 0x0C, CHR 0x0D, CHR 0x20, CHR 0xA0})"

definition trim :: "string \<Rightarrow> string" where
  "trim s = rev (dropWhile isWhiteSpace (rev (dropWhile isWhiteSpace s)))"

text \<open>\<^verbatim>\<open>s.split(sep)\<close> for a separator of one character: never an empty list.\<close>

fun split_on :: "char \<Rightarrow> string \<Rightarrow> string list" where
  "split_on sep [] = [[]]"
| "split_on sep (c # cs) =
     (if c = sep then [] # split_on sep cs
      else (case split_on sep cs of [] \<Rightarrow> [[c]] | w # ws \<Rightarrow> (c # w) # ws))"

text \<open>
  \<^verbatim>\<open>Number.parseInt(string)\<close> with no radix: leading white space is skipped, one sign is
  read, a prefix \<^verbatim>\<open>0x\<close> or \<^verbatim>\<open>0X\<close> selects radix 16 (radix 10 otherwise), and the
  longest prefix of digits of that radix is the integer; with no digit the result is NaN.
  The integer is converted to a Number, so it is rounded.
\<close>

definition digitValue :: "char \<Rightarrow> nat option" where
  "digitValue c =
     (let n = (of_char c :: nat)
      in if 48 \<le> n \<and> n \<le> 57 then Some (n - 48)
         else if 97 \<le> n \<and> n \<le> 122 then Some (n - 87)
         else if 65 \<le> n \<and> n \<le> 90 then Some (n - 55)
         else None)"

definition isRadixDigit :: "nat \<Rightarrow> char \<Rightarrow> bool" where
  "isRadixDigit R c = (case digitValue c of None \<Rightarrow> False | Some d \<Rightarrow> d < R)"

definition mathInt :: "nat \<Rightarrow> string \<Rightarrow> nat" where
  "mathInt R Z = foldl (\<lambda>acc c. acc * R + (case digitValue c of None \<Rightarrow> 0 | Some d \<Rightarrow> d)) 0 Z"

definition parseInt :: "string \<Rightarrow> number" where
  "parseInt str =
     (let S = dropWhile isWhiteSpace str;
          sign = (case S of [] \<Rightarrow> 1 | c # _ \<Rightarrow> if c = CHR ''-'' then - 1 else (1 :: int));
          S1 = (case S of [] \<Rightarrow> S | c # r \<Rightarrow> if c = CHR ''+'' \<or> c = CHR ''-'' then r else S);
          hex = (case S1 of a # b # _ \<Rightarrow> a = CHR ''0'' \<and> (b = CHR ''x'' \<or> b = CHR ''X'')
                 | _ \<Rightarrow> False);
          R = (if hex then 16 else 10);
          S2 = (if hex then drop 2 S1 else S1);
          Z = takeWhile (isRadixDigit R) S2
      in if Z = [] then NaN else rnd (of_int (sign * int (mathInt R Z))))"

text \<open>
  Lines 135 to 138:
  \<^verbatim>\<open>sizes.split(",").map((s) => Number.parseInt(s.trim())).filter((s) => s > 0)\<close>.
\<close>

definition sizeArray :: "string \<Rightarrow> number list" where
  "sizeArray sizes =
     filter (\<lambda>s. num_less (Fin 0) s) (map (\<lambda>s. parseInt (trim s)) (split_on CHR '','' sizes))"

text \<open>
  \<^verbatim>\<open>file.name.replace(/\.[^/.]+$/, "")\<close>: the regular expression matches a dot followed
  to the end of the string by one or more characters that are neither a slash nor a dot;
  \<^verbatim>\<open>replace\<close> removes the leftmost match.
\<close>

definition extensionAt :: "string \<Rightarrow> bool" where
  "extensionAt s = (case s of [] \<Rightarrow> False
     | c # r \<Rightarrow> c = CHR ''.'' \<and> r \<noteq> [] \<and> (\<forall>d \<in> set r. d \<noteq> CHR ''/'' \<and> d \<noteq> CHR ''.''))"

fun baseName :: "string \<Rightarrow> string" where
  "baseName [] = []"
| "baseName (c # cs) = (if extensionAt (c # cs) then [] else c # baseName cs)"

text \<open>A name has an extension when the regular expression matches somewhere in it.\<close>

fun hasExtension :: "string \<Rightarrow> bool" where
  "hasExtension [] = False"
| "hasExtension (c # cs) = (extensionAt (c # cs) \<or> hasExtension cs)"

definition filenameOf :: "string \<Rightarrow> number \<Rightarrow> string" where
  "filenameOf nm sz =
     baseName nm @ ''_'' @ numberToString sz @ ''x'' @ numberToString sz @ ''.png''"

definition idOf :: "string \<Rightarrow> number \<Rightarrow> string" where
  "idOf nm sz = nm @ ''-'' @ numberToString sz"

section \<open>The icon resizer\<close>

text \<open>
  A selected file: its name, and what the image element reports when the file is loaded:
  \<open>None\<close> when \<^verbatim>\<open>onerror\<close> fires, otherwise \<^verbatim>\<open>img.width\<close> and \<^verbatim>\<open>img.height\<close>
  (unsigned long in the DOM, so below \<open>2 ^ 32\<close>).
\<close>

record File =
  name :: string
  decoded :: "(nat \<times> nat) option"

text \<open>Lines 173 to 177: the aspect-fit scale and the centred placement.\<close>

definition scale :: "number \<Rightarrow> nat \<times> nat \<Rightarrow> number" where
  "scale sz img =
     num_min (num_div sz (Fin (of_nat (fst img)))) (num_div sz (Fin (of_nat (snd img))))"

definition scaledWidth :: "number \<Rightarrow> nat \<times> nat \<Rightarrow> number" where
  "scaledWidth sz img = num_mul (Fin (of_nat (fst img))) (scale sz img)"

definition scaledHeight :: "number \<Rightarrow> nat \<times> nat \<Rightarrow> number" where
  "scaledHeight sz img = num_mul (Fin (of_nat (snd img))) (scale sz img)"

definition offsetX :: "number \<Rightarrow> nat \<times> nat \<Rightarrow> number" where
  "offsetX sz img = num_div (num_sub sz (scaledWidth sz img)) (Fin 2)"

definition offsetY :: "number \<Rightarrow> nat \<times> nat \<Rightarrow> number" where
  "offsetY sz img = num_div (num_sub sz (scaledHeight sz img)) (Fin 2)"

text \<open>
  \<^verbatim>\<open>canvas.width = size\<close> and \<^verbatim>\<open>canvas.height = size\<close>: the two attributes are DOM
  unsigned long values that reflect the content attributes.  The number is first converted
  to an unsigned long (NaN and the infinities give 0, a finite value is truncated and taken
  modulo \<open>2 ^ 32\<close>); a converted value above 2147483647 is then replaced by the default of
  the attribute, 300 for the width and 150 for the height.
\<close>

definition toUnsignedLong :: "number \<Rightarrow> nat" where
  "toUnsignedLong x =
     (case x of
        Fin q \<Rightarrow> nat ((if 0 \<le> q then \<lfloor>q\<rfloor> else - \<lfloor>- q\<rfloor>) mod 2 ^ 32)
      | _ \<Rightarrow> 0)"

definition reflectUnsignedLong :: "nat \<Rightarrow> nat \<Rightarrow> nat" where
  "reflectUnsignedLong dflt v = (if v \<le> 2147483647 then v else dflt)"

text \<open>
  The encoded canvas, kept as what was drawn: the width and height of the canvas and the
  arguments of \<^verbatim>\<open>drawImage\<close>.  The source takes the blob of \<^verbatim>\<open>toBlob\<close> as non-null
  (\<^verbatim>\<open>blob!\<close>), and so does the model.
\<close>

record blob =
  canvasWidth :: nat
  canvasHeight :: nat
  drawX :: number
  drawY :: number
  drawWidth :: number
  drawHeight :: number

definition render :: "number \<Rightarrow> nat \<times> nat \<Rightarrow> blob" where
  "render sz img =
     \<lparr>canvasWidth = reflectUnsignedLong 300 (toUnsignedLong sz),
      canvasHeight = reflectUnsignedLong 150 (toUnsignedLong sz),
      drawX = offsetX sz img, drawY = offsetY sz img,
      drawWidth = scaledWidth sz img, drawHeight = scaledHeight sz img\<rparr>"

text \<open>
  The interface \<^verbatim>\<open>ProcessedIcon\<close> of lines 61 to 68; its fields \<^verbatim>\<open>id\<close>, \<^verbatim>\<open>size\<close>
  and \<^verbatim>\<open>blob\<close> are \<open>iconId\<close>, \<open>iconSize\<close> and \<open>iconBlob\<close> here, and the object URL
  is a number.
\<close>

record ProcessedIcon =
  iconId :: string
  originalName :: string
  iconSize :: number
  iconBlob :: blob
  url :: nat
  filename :: string

datatype toast = NoFilesSelected | InvalidSizes | ProcessingComplete nat | ProcessingFailed

text \<open>
  The state of the page: the five state variables of the component that the resizer uses,
  the object URLs that are alive in the browser (\<^verbatim>\<open>URL.createObjectURL\<close> hands out a
  fresh one, \<^verbatim>\<open>URL.revokeObjectURL\<close> releases it), the toasts shown, and the history of
  the values given to \<^verbatim>\<open>setProgress\<close>.  One event handler runs at a time.
\<close>

record state =
  files :: "File list"
  sizes :: string
  processedIcons :: "ProcessedIcon list"
  isProcessing :: bool
  progress :: number
  objectURLs :: "nat set"
  nextURL :: nat
  toasts :: "toast list"
  progressLog :: "number list"

definition createObjectURL :: "state \<Rightarrow> nat \<times> state" where
  "createObjectURL st =
     (nextURL st, st\<lparr>objectURLs := insert (nextURL st) (objectURLs st), nextURL := Suc (nextURL st)\<rparr>)"

definition revokeObjectURL :: "nat \<Rightarrow> state \<Rightarrow> state" where
  "revokeObjectURL u st = st\<lparr>objectURLs := objectURLs st - {u}\<rparr>"

definition setProgress :: "number \<Rightarrow> state \<Rightarrow> state" where
  "setProgress p st = st\<lparr>progress := p, progressLog := progressLog st @ [p]\<rparr>"

definition showToast :: "toast \<Rightarrow> state \<Rightarrow> state" where
  "showToast t st = st\<lparr>toasts := t # toasts st\<rparr>"

text \<open>
  \<^verbatim>\<open>(completedOperations / totalOperations) * 100\<close>.  The two counters are natural
  numbers: a count is exact in binary64 below \<open>2 ^ 53\<close>, far beyond the icons a page can
  hold.
\<close>

definition percent :: "nat \<Rightarrow> nat \<Rightarrow> number" where
  "percent completed totalOps = num_mul (num_div (Fin (of_nat completed)) (Fin (of_nat totalOps))) (Fin 100)"

text \<open>Lines 191 to 198, the record pushed for one size.\<close>

definition newIcon :: "File \<Rightarrow> nat \<times> nat \<Rightarrow> number \<Rightarrow> nat \<Rightarrow> ProcessedIcon" where
  "newIcon f img sz processedUrl =
     \<lparr>iconId = idOf (name f) sz, originalName = name f, iconSize = sz,
      iconBlob = render sz img, url = processedUrl, filename = filenameOf (name f) sz\<rparr>"

text \<open>
  Lines 166 to 202, the loop over the sizes for one decoded image.  The loop carries
  \<^verbatim>\<open>newProcessedIcons\<close>, \<^verbatim>\<open>completedOperations\<close> and the state.
\<close>

fun sizeLoop :: "File \<Rightarrow> nat \<times> nat \<Rightarrow> nat \<Rightarrow> number list
    \<Rightarrow> ProcessedIcon list \<times> nat \<times> state \<Rightarrow> ProcessedIcon list \<times> nat \<times> state" where
  "sizeLoop f img totalOps [] acc = acc"
| "sizeLoop f img totalOps (sz # rest) (icons, completed, st) =
     (let (processedUrl, st1) = createObjectURL st;
          completed1 = Suc completed;
          st2 = setProgress (percent completed1 totalOps) st1
      in sizeLoop f img totalOps rest
           (icons @ [newIcon f img sz processedUrl], completed1, st2))"

text \<open>
  The records that the loop over the sizes pushes for one image, the first of them with the
  object URL \<open>u\<close>: what \<open>sizeLoop\<close> appends (lemma \<open>sizeLoop_icons\<close>).
\<close>

fun iconsFor :: "File \<Rightarrow> nat \<times> nat \<Rightarrow> nat \<Rightarrow> number list \<Rightarrow> ProcessedIcon list" where
  "iconsFor f img u [] = []"
| "iconsFor f img u (sz # rest) = newIcon f img sz u # iconsFor f img (Suc u) rest"

text \<open>
  Lines 155 to 205, the loop over the files.  \<open>Inl\<close> is the rejected promise of a failed
  decode, with the state reached when it is thrown; the object URL of the failing file is
  not revoked.
\<close>

fun fileLoop :: "nat \<Rightarrow> number list \<Rightarrow> File list
    \<Rightarrow> ProcessedIcon list \<times> nat \<times> state \<Rightarrow> state + ProcessedIcon list \<times> nat \<times> state" where
  "fileLoop totalOps szs [] acc = Inr acc"
| "fileLoop totalOps szs (f # fs) (icons, completed, st) =
     (let (imageUrl, st1) = createObjectURL st
      in case decoded f of
           None \<Rightarrow> Inl st1
         | Some img \<Rightarrow>
             (let (icons1, completed1, st2) = sizeLoop f img totalOps szs (icons, completed, st1);
                  st3 = revokeObjectURL imageUrl st2
              in fileLoop totalOps szs fs (icons1, completed1, st3)))"

text \<open>Lines 125 to 221.\<close>

definition processImages :: "state \<Rightarrow> state" where
  "processImages st =
     (if length (files st) = 0 then showToast NoFilesSelected st
      else let szs = sizeArray (sizes st)
           in if length szs = 0 then showToast InvalidSizes st
              else let st1 = setProgress (Fin 0) (st\<lparr>isProcessing := True\<rparr>);
                       totalOperations = length (files st) * length szs
                   in case fileLoop totalOperations szs (files st) ([], 0, st1) of
                        Inr (newProcessedIcons, completedOperations, st2) \<Rightarrow>
                          (showToast (ProcessingComplete (length newProcessedIcons))
                             (st2\<lparr>processedIcons := newProcessedIcons\<rparr>))\<lparr>isProcessing := False\<rparr>
                      | Inl st2 \<Rightarrow> (showToast ProcessingFailed st2)\<lparr>isProcessing := False\<rparr>)"

text \<open>
  Lines 254 to 262.  The reset of the file input element is outside the state.
\<close>

definition clearAll :: "state \<Rightarrow> state" where
  "clearAll st =
     setProgress (Fin 0)
       ((fold (\<lambda>icon. revokeObjectURL (url icon)) (processedIcons st) st)
          \<lparr>processedIcons := [], files := []\<rparr>)"

text \<open>
  The page starts with no file, the default size text and no result (lines 72 to 76), and
  with no object URL alive.  The browser never hands out an object URL that is still alive:
  in the states reached from the initial one every live URL is below the next one.
\<close>

definition initialState :: state where
  "initialState =
     \<lparr>files = [], sizes = ''16,32,48,128'', processedIcons = [], isProcessing = False,
      progress = Fin 0, objectURLs = {}, nextURL = 0, toasts = [], progressLog = []\<rparr>"

text \<open>Lines 148 and 149: the state in which the loop over the files starts.\<close>

definition started :: "state \<Rightarrow> state" where
  "started st = setProgress (Fin 0) (st\<lparr>isProcessing := True\<rparr>)"

text \<open>The state in which the loop over the files ends, completed or thrown.\<close>

definition finalState :: "state + ProcessedIcon list \<times> nat \<times> state \<Rightarrow> state" where
  "finalState r = (case r of Inl st \<Rightarrow> st | Inr (_, _, st) \<Rightarrow> st)"

definition decodes :: "File \<Rightarrow> bool" where
  "decodes f = (decoded f \<noteq> None)"

text \<open>
  The scenario of the specification: one 64 by 64 image \<^verbatim>\<open>logo.png\<close> and the size text
  "16,32"; and a file that the image element cannot load.
\<close>

definition logoFile :: File where
  "logoFile = \<lparr>name = ''logo.png'', decoded = Some (64, 64)\<rparr>"

definition brokenFile :: File where
  "brokenFile = \<lparr>name = ''broken.svg'', decoded = None\<rparr>"

definition logoState :: state where
  "logoState = initialState\<lparr>files := [logoFile], sizes := ''16,32''\<rparr>"

text \<open>One 64 by 64 image \<^verbatim>\<open>icon.png\<close> and the size text "16,16".\<close>

definition iconFile :: File where
  "iconFile = \<lparr>name = ''icon.png'', decoded = Some (64, 64)\<rparr>"

definition duplicateState :: state where
  "duplicateState = initialState\<lparr>files := [iconFile], sizes := ''16,16''\<rparr>"

text \<open>Every live object URL is below the next one to be handed out.\<close>

definition urlsFresh :: "state \<Rightarrow> bool" where
  "urlsFresh st = (\<forall>u \<in> objectURLs st. u < nextURL st)"

section \<open>Rounding to binary64\<close>

lemma pow2_powi: "pow2 e = 2 powi e"
  by (simp add: pow2_def power_int_def inverse_eq_divide power_one_over)

lemma pow2_pos: "0 < pow2 e"
  by (simp add: pow2_powi)

lemma pow2_add: "pow2 (a + b) = pow2 a * pow2 b"
  by (simp add: pow2_powi power_int_add)

lemma pow2_mono: "a \<le> b \<Longrightarrow> pow2 a \<le> pow2 b"
  by (simp add: pow2_powi power_int_increasing)

lemma pow2_strict_mono: "a < b \<Longrightarrow> pow2 a < pow2 b"
  by (simp add: pow2_powi power_int_strict_increasing)

lemma pow2_nat: "0 \<le> e \<Longrightarrow> pow2 e = of_int (2 ^ nat e)"
  by (simp add: pow2_def)

lemma pow2_Suc: "pow2 (e + 1) = 2 * pow2 e"
  by (simp add: pow2_powi power_int_add)

lemma ilog2_bounds:
  assumes "0 < x"
  shows "pow2 (ilog2 x) \<le> x \<and> x < pow2 (ilog2 x + 1)"
proof -
  obtain a b where q: "quotient_of x = (a, b)" by (cases "quotient_of x")
  have b: "0 < b" using quotient_of_denom_pos [OF q] .
  have x: "x = of_int a / of_int b" using quotient_of_div [OF q] .
  have a: "0 < a" using assms b x by (simp add: zero_less_divide_iff)
  define k where "k = bitlen a - bitlen b"
  have la: "1 \<le> bitlen a" and lb: "1 \<le> bitlen b"
    using a b bitlen_nonneg [of a] bitlen_nonneg [of b] bitlen_eq_zero_iff [of a] bitlen_eq_zero_iff [of b]
    by linarith+
  have a1: "pow2 (bitlen a - 1) \<le> of_int a"
  proof -
    have "(2::int) ^ nat (bitlen a - 1) \<le> a" using bitlen_bounds [OF a] by blast
    then have "(of_int (2 ^ nat (bitlen a - 1)) :: rat) \<le> of_int a" by (simp only: of_int_le_iff)
    then show ?thesis using la by (simp only: pow2_nat)
  qed
  have a2: "of_int a < pow2 (bitlen a)"
  proof -
    have "a < (2::int) ^ nat (bitlen a)" using bitlen_bounds [OF a] by blast
    then have "(of_int a :: rat) < of_int (2 ^ nat (bitlen a))" by (simp only: of_int_less_iff)
    then show ?thesis using la by (simp only: pow2_nat)
  qed
  have b1: "pow2 (bitlen b - 1) \<le> of_int b"
  proof -
    have "(2::int) ^ nat (bitlen b - 1) \<le> b" using bitlen_bounds [OF b] by blast
    then have "(of_int (2 ^ nat (bitlen b - 1)) :: rat) \<le> of_int b" by (simp only: of_int_le_iff)
    then show ?thesis using lb by (simp only: pow2_nat)
  qed
  have b2: "of_int b < pow2 (bitlen b)"
  proof -
    have "b < (2::int) ^ nat (bitlen b)" using bitlen_bounds [OF b] by blast
    then have "(of_int b :: rat) < of_int (2 ^ nat (bitlen b))" by (simp only: of_int_less_iff)
    then show ?thesis using lb by (simp only: pow2_nat)
  qed
  have up: "x < pow2 (k + 1)"
  proof -
    have "of_int a < pow2 (k + 1) * pow2 (bitlen b - 1)"
      using a2 by (simp add: k_def flip: pow2_add)
    also have "\<dots> \<le> pow2 (k + 1) * of_int b"
      using b1 pow2_pos [of "k + 1"] by simp
    finally show ?thesis using b by (simp add: x pos_divide_less_eq)
  qed
  have lo: "pow2 (k - 1) \<le> x"
  proof -
    have "pow2 (k - 1) * of_int b \<le> pow2 (k - 1) * pow2 (bitlen b)"
      using b2 pow2_pos [of "k - 1"] by simp
    also have "\<dots> = pow2 (bitlen a - 1)"
      by (simp add: k_def flip: pow2_add)
    also have "\<dots> \<le> of_int a" by (rule a1)
    finally show ?thesis using b by (simp add: x pos_le_divide_eq)
  qed
  have il: "ilog2 x = (if pow2 k \<le> x then k else k - 1)"
    by (simp add: ilog2_def q k_def Let_def)
  show ?thesis
  proof (cases "pow2 k \<le> x")
    case True
    then show ?thesis using up il by simp
  next
    case False
    then show ?thesis using lo il by simp
  qed
qed

lemma ilog2_unique:
  assumes "pow2 e \<le> x" "x < pow2 (e + 1)"
  shows "ilog2 x = e"
proof -
  have x: "0 < x" using assms(1) pow2_pos [of e] by linarith
  note b = ilog2_bounds [OF x]
  have "\<not> ilog2 x < e"
  proof
    assume "ilog2 x < e"
    then have "pow2 (ilog2 x + 1) \<le> pow2 e" by (intro pow2_mono) simp
    then show False using b assms by linarith
  qed
  moreover have "\<not> e < ilog2 x"
  proof
    assume "e < ilog2 x"
    then have "pow2 (e + 1) \<le> pow2 (ilog2 x)" by (intro pow2_mono) simp
    then show False using b assms by linarith
  qed
  ultimately show ?thesis by linarith
qed

lemma ilog2_mono:
  assumes "0 < x" "x \<le> y"
  shows "ilog2 x \<le> ilog2 y"
proof (rule ccontr)
  assume "\<not> ilog2 x \<le> ilog2 y"
  then have "pow2 (ilog2 y + 1) \<le> pow2 (ilog2 x)" by (intro pow2_mono) simp
  moreover have "0 < y" using assms by linarith
  ultimately show False using ilog2_bounds [OF assms(1)] ilog2_bounds [OF \<open>0 < y\<close>] assms(2) by linarith
qed

lemma roundHalfEven_err: "\<bar>of_int (roundHalfEven x) - x\<bar> \<le> 1 / 2"
proof -
  have f: "of_int \<lfloor>x\<rfloor> \<le> x" "x < of_int \<lfloor>x\<rfloor> + 1" by linarith+
  show ?thesis
    unfolding roundHalfEven_def Let_def using f by (simp add: abs_le_iff)
qed

lemma roundHalfEven_of_int: "roundHalfEven (of_int n) = n"
  by (simp add: roundHalfEven_def)

lemma roundHalfEven_mono:
  assumes "x \<le> y"
  shows "roundHalfEven x \<le> roundHalfEven y"
proof -
  have f: "\<lfloor>x\<rfloor> \<le> \<lfloor>y\<rfloor>" using assms by (rule floor_mono)
  have lx: "roundHalfEven x \<le> \<lfloor>x\<rfloor> + 1" and ly: "\<lfloor>y\<rfloor> \<le> roundHalfEven y"
    by (simp_all add: roundHalfEven_def Let_def)
  show ?thesis
  proof (cases "\<lfloor>x\<rfloor> = \<lfloor>y\<rfloor>")
    case True
    then show ?thesis using assms by (auto simp: roundHalfEven_def Let_def)
  next
    case False
    then show ?thesis using f lx ly by linarith
  qed
qed

lemma roundHalfEven_eqI: "\<bar>x - of_int m\<bar> < 1 / 2 \<Longrightarrow> roundHalfEven x = m"
proof -
  assume a: "\<bar>x - of_int m\<bar> < 1 / 2"
  have "\<bar>of_int (roundHalfEven x) - x\<bar> \<le> 1 / 2" by (rule roundHalfEven_err)
  then have "\<bar>(of_int (roundHalfEven x) :: rat) - of_int m\<bar> < 1" using a by linarith
  then have "\<bar>roundHalfEven x - m\<bar> < 1"
    by (metis of_int_diff of_int_abs of_int_less_iff of_int_1)
  then show ?thesis by linarith
qed

lemma quantum_pos: "0 < quantum x"
  by (simp add: quantum_def pow2_pos)

lemma pow2_diff_int: "b \<le> a \<Longrightarrow> pow2 a / pow2 b = of_int (2 ^ nat (a - b))"
proof -
  assume "b \<le> a"
  then have "pow2 (a - b) = of_int (2 ^ nat (a - b))" by (simp add: pow2_nat)
  moreover have "pow2 a = pow2 (a - b) * pow2 b" by (simp flip: pow2_add)
  ultimately show ?thesis using pow2_pos [of b] by simp
qed

lemma nearest_upper:
  assumes "0 < x" "max (ilog2 x - 52) (- 1074) \<le> t" "x \<le> pow2 t"
  shows "nearest x \<le> pow2 t"
proof -
  define q where "q = max (ilog2 x - 52) (- 1074)"
  have u: "quantum x = pow2 q" using assms(1) by (simp add: quantum_def q_def)
  have "x / pow2 q \<le> pow2 t / pow2 q"
    using assms(3) pow2_pos [of q] by (simp add: divide_right_mono)
  also have "\<dots> = of_int (2 ^ nat (t - q))"
    using assms(2) by (simp add: pow2_diff_int q_def)
  finally have "roundHalfEven (x / pow2 q) \<le> 2 ^ nat (t - q)"
    using roundHalfEven_mono roundHalfEven_of_int by metis
  then have "(of_int (roundHalfEven (x / pow2 q)) :: rat) \<le> of_int (2 ^ nat (t - q))"
    by (simp only: of_int_le_iff)
  then have "pow2 q * of_int (roundHalfEven (x / pow2 q)) \<le> pow2 q * (pow2 t / pow2 q)"
    using pow2_pos [of q] assms(2) by (simp add: pow2_diff_int q_def)
  then show ?thesis using assms(1) pow2_pos [of q] by (simp add: nearest_def u)
qed

lemma nearest_lower:
  assumes "0 < x" "max (ilog2 x - 52) (- 1074) \<le> t" "pow2 t \<le> x"
  shows "pow2 t \<le> nearest x"
proof -
  define q where "q = max (ilog2 x - 52) (- 1074)"
  have u: "quantum x = pow2 q" using assms(1) by (simp add: quantum_def q_def)
  have "pow2 t / pow2 q \<le> x / pow2 q"
    using assms(3) pow2_pos [of q] by (simp add: divide_right_mono)
  moreover have "pow2 t / pow2 q = of_int (2 ^ nat (t - q))"
    using assms(2) by (simp add: pow2_diff_int q_def)
  ultimately have "2 ^ nat (t - q) \<le> roundHalfEven (x / pow2 q)"
    using roundHalfEven_mono roundHalfEven_of_int by metis
  then have "(of_int (2 ^ nat (t - q)) :: rat) \<le> of_int (roundHalfEven (x / pow2 q))"
    by (simp only: of_int_le_iff)
  then have "pow2 q * (pow2 t / pow2 q) \<le> pow2 q * of_int (roundHalfEven (x / pow2 q))"
    using pow2_pos [of q] assms(2) by (simp add: pow2_diff_int q_def)
  then show ?thesis using assms(1) pow2_pos [of q] by (simp add: nearest_def u)
qed

lemma nearest_nonneg: "0 \<le> x \<Longrightarrow> 0 \<le> nearest x"
proof -
  assume x: "0 \<le> x"
  have "0 \<le> x / quantum x" using x quantum_pos [of x] by simp
  then have "roundHalfEven 0 \<le> roundHalfEven (x / quantum x)" by (rule roundHalfEven_mono)
  then have "0 \<le> roundHalfEven (x / quantum x)" using roundHalfEven_of_int [of 0] by simp
  then show ?thesis using quantum_pos [of x] by (simp add: nearest_def)
qed

lemma nearest_mono:
  assumes "0 \<le> x" "x \<le> y"
  shows "nearest x \<le> nearest y"
proof (cases "x = 0")
  case True
  then show ?thesis using nearest_nonneg [of y] assms by (simp add: nearest_def)
next
  case False
  then have x: "0 < x" and y: "0 < y" using assms by linarith+
  define qx where "qx = max (ilog2 x - 52) (- 1074)"
  define qy where "qy = max (ilog2 y - 52) (- 1074)"
  have e: "ilog2 x \<le> ilog2 y" using ilog2_mono [OF x assms(2)] .
  then have q: "qx \<le> qy" by (simp add: qx_def qy_def)
  show ?thesis
  proof (cases "qx = qy")
    case True
    have "x / pow2 qy \<le> y / pow2 qy" using assms(2) pow2_pos [of qy] by (simp add: divide_right_mono)
    then have "roundHalfEven (x / pow2 qy) \<le> roundHalfEven (y / pow2 qy)" by (rule roundHalfEven_mono)
    then have "pow2 qy * of_int (roundHalfEven (x / pow2 qy)) \<le> pow2 qy * of_int (roundHalfEven (y / pow2 qy))"
      using pow2_pos [of qy] by simp
    then show ?thesis using x y True by (simp add: nearest_def quantum_def qx_def qy_def)
  next
    case False
    then have lt: "qx < qy" using q by simp
    then have ey: "ilog2 x + 1 \<le> ilog2 y" and t: "qx \<le> ilog2 y" and t': "qy \<le> ilog2 y"
      unfolding qx_def qy_def by linarith+
    have "x < pow2 (ilog2 x + 1)" using ilog2_bounds [OF x] by simp
    also have "\<dots> \<le> pow2 (ilog2 y)" using ey by (rule pow2_mono)
    finally have "nearest x \<le> pow2 (ilog2 y)"
      using nearest_upper [OF x, of "ilog2 y"] t by (simp add: qx_def)
    moreover have "pow2 (ilog2 y) \<le> nearest y"
      using nearest_lower [OF y, of "ilog2 y"] t' ilog2_bounds [OF y] by (simp add: qy_def)
    ultimately show ?thesis by linarith
  qed
qed

lemma nearest_normal:
  assumes "pow2 e \<le> x" "x < pow2 (e + 1)" "- 1022 \<le> e"
  shows "nearest x = pow2 (e - 52) * of_int (roundHalfEven (x / pow2 (e - 52)))"
proof -
  have x: "0 < x" using assms(1) pow2_pos [of e] by linarith
  have "ilog2 x = e" using assms(1,2) by (rule ilog2_unique)
  moreover have "max (e - 52) (- 1074) = e - 52" using assms(3) by linarith
  ultimately show ?thesis using x by (simp add: nearest_def quantum_def)
qed

lemma nearest_err:
  assumes "pow2 e \<le> x" "x < pow2 (e + 1)" "- 1022 \<le> e"
  shows "\<bar>nearest x - x\<bar> \<le> x / 2 ^ 53"
proof -
  define u where "u = pow2 (e - 52)"
  have u: "0 < u" by (simp add: u_def pow2_pos)
  have n: "nearest x = u * of_int (roundHalfEven (x / u))"
    using nearest_normal [OF assms] by (simp add: u_def)
  have "\<bar>of_int (roundHalfEven (x / u)) - x / u\<bar> \<le> 1 / 2" by (rule roundHalfEven_err)
  then have "u * \<bar>of_int (roundHalfEven (x / u)) - x / u\<bar> \<le> u * (1 / 2)"
    using u by (simp only: mult_le_cancel_left_pos)
  moreover have "u * \<bar>of_int (roundHalfEven (x / u)) - x / u\<bar> = \<bar>nearest x - x\<bar>"
  proof -
    have "u * \<bar>of_int (roundHalfEven (x / u)) - x / u\<bar> = \<bar>u * (of_int (roundHalfEven (x / u)) - x / u)\<bar>"
      using u by (simp add: abs_mult)
    also have "u * (of_int (roundHalfEven (x / u)) - x / u) = nearest x - x"
      using u by (simp add: n right_diff_distrib)
    finally show ?thesis .
  qed
  moreover have "u * (1 / 2) = pow2 e / 2 ^ 53"
  proof -
    have "pow2 e = pow2 (e - 52) * pow2 52" by (simp flip: pow2_add)
    then show ?thesis by (simp add: u_def pow2_def)
  qed
  moreover have "pow2 e / 2 ^ 53 \<le> x / 2 ^ 53" using assms(1) by (simp add: divide_right_mono)
  ultimately show ?thesis by linarith
qed

lemma pow2_1024: "pow2 1024 = 2 ^ 1024"
  by (simp add: pow2_def)

lemma rnd_eqI:
  assumes "pow2 (q + 52) \<le> x" "x < pow2 (q + 53)" "- 1074 \<le> q" "q \<le> 970"
    and "\<bar>x / pow2 q - of_int m\<bar> < 1 / 2"
  shows "rnd x = Fin (pow2 q * of_int m)"
proof -
  have x: "0 < x" using assms(1) pow2_pos [of "q + 52"] by linarith
  have "nearest x = pow2 (q + 52 - 52) * of_int (roundHalfEven (x / pow2 (q + 52 - 52)))"
    using assms(1,2,3) by (intro nearest_normal) (simp_all add: add.commute add.left_commute)
  then have n: "nearest x = pow2 q * of_int m"
    using roundHalfEven_eqI [OF assms(5)] by simp
  have "nearest x \<le> pow2 (q + 53)"
    using assms(1,2,3) ilog2_unique [of "q + 52" x]
    by (intro nearest_upper [OF x]) (simp_all add: add.commute add.left_commute)
  also have "\<dots> < pow2 1024" using assms(4) by (intro pow2_strict_mono) simp
  finally have "nearest x < 2 ^ 1024" by (simp only: pow2_1024)
  moreover have "0 \<le> nearest x" using x by (intro nearest_nonneg) simp
  ultimately show ?thesis by (simp add: rnd_def Let_def n)
qed

lemma rnd_exact:
  assumes "x = pow2 q * of_int m" "\<bar>m\<bar> < 2 ^ 53" "- 1074 \<le> q" "q \<le> 971"
  shows "rnd x = Fin x"
proof (cases "m = 0")
  case True
  then show ?thesis using assms(1) by (simp add: rnd_def nearest_def)
next
  case False
  then have m: "1 \<le> \<bar>m\<bar>" by linarith
  have ax: "\<bar>x\<bar> = pow2 q * of_int \<bar>m\<bar>"
    using pow2_pos [of q] by (simp add: assms(1) abs_mult)
  have x0: "0 < \<bar>x\<bar>" using m pow2_pos [of q] False by (simp add: assms(1))
  have "(of_int \<bar>m\<bar> :: rat) < of_int (2 ^ 53)" using assms(2) by (simp only: of_int_less_iff)
  then have "pow2 q * of_int \<bar>m\<bar> < pow2 q * pow2 53"
    using pow2_pos [of q] by (simp add: pow2_def)
  then have up: "\<bar>x\<bar> < pow2 (q + 53)" by (simp add: ax pow2_add)
  define e where "e = ilog2 \<bar>x\<bar>"
  have "\<not> q + 53 \<le> e"
  proof
    assume "q + 53 \<le> e"
    then have "pow2 (q + 53) \<le> pow2 e" by (rule pow2_mono)
    then show False using up ilog2_bounds [OF x0] by (simp add: e_def)
  qed
  then have e: "e - 52 \<le> q" by simp
  define q' where "q' = max (e - 52) (- 1074)"
  have q': "q' \<le> q" using e assms(3) by (simp add: q'_def)
  have "x / pow2 q' = of_int m * (pow2 q / pow2 q')" by (simp add: assms(1))
  also have "\<dots> = of_int (m * 2 ^ nat (q - q'))" using q' by (simp add: pow2_diff_int)
  finally have d: "x / pow2 q' = of_int (m * 2 ^ nat (q - q'))" .
  have "nearest x = pow2 q' * of_int (roundHalfEven (x / pow2 q'))"
    using x0 by (simp add: nearest_def quantum_def q'_def e_def)
  also have "\<dots> = pow2 q' * (x / pow2 q')"
    by (simp only: d roundHalfEven_of_int)
  finally have n: "nearest x = x" using pow2_pos [of q'] by simp
  have "pow2 (q + 53) \<le> pow2 1024" using assms(4) by (intro pow2_mono) simp
  then have "\<bar>x\<bar> < 2 ^ 1024" using up by (simp only: pow2_1024)
  then show ?thesis by (simp add: rnd_def Let_def n abs_less_iff)
qed

lemma rnd_of_int: "\<bar>n\<bar> < 2 ^ 53 \<Longrightarrow> rnd (of_int n) = Fin (of_int n)"
  using rnd_exact [of "of_int n" 0 n] by (simp add: pow2_def)

lemma rnd_rel:
  assumes "pow2 (- 1022) \<le> x" "x < pow2 1023"
  shows "\<exists>r. rnd x = Fin r \<and> \<bar>r - x\<bar> \<le> x / 2 ^ 53"
proof -
  have x: "0 < x" using assms(1) pow2_pos [of "- 1022"] by linarith
  define e where "e = ilog2 x"
  note b = ilog2_bounds [OF x, folded e_def]
  have lo: "- 1022 \<le> e"
  proof (rule ccontr)
    assume "\<not> - 1022 \<le> e"
    then have "pow2 (e + 1) \<le> pow2 (- 1022)" by (intro pow2_mono) simp
    then show False using b assms(1) by linarith
  qed
  have hi: "e + 1 \<le> 1023"
  proof (rule ccontr)
    assume "\<not> e + 1 \<le> 1023"
    then have "pow2 1023 \<le> pow2 e" by (intro pow2_mono) simp
    then show False using b assms(2) by linarith
  qed
  have err: "\<bar>nearest x - x\<bar> \<le> x / 2 ^ 53"
    using b lo by (intro nearest_err [of e]) simp_all
  have "max (ilog2 x - 52) (- 1074) \<le> e + 1" using lo by (simp add: e_def)
  then have "nearest x \<le> pow2 (e + 1)"
    using b by (intro nearest_upper [OF x]) simp_all
  also have "\<dots> < pow2 1024" using hi by (intro pow2_strict_mono) simp
  finally have "nearest x < 2 ^ 1024" by (simp only: pow2_1024)
  moreover have "0 \<le> nearest x" using x by (intro nearest_nonneg) simp
  ultimately have "rnd x = Fin (nearest x)" by (simp add: rnd_def Let_def)
  then show ?thesis using err by simp
qed

lemma rnd_mono:
  assumes "0 \<le> x" "x \<le> y"
  shows "num_le (rnd x) (rnd y)"
proof -
  have "nearest x \<le> nearest y" using assms by (rule nearest_mono)
  moreover have "0 \<le> nearest x" using assms(1) by (rule nearest_nonneg)
  ultimately show ?thesis by (simp add: rnd_def Let_def)
qed

lemma rnd_numeral: "(numeral w :: int) < 2 ^ 53 \<Longrightarrow> rnd (numeral w) = Fin (numeral w)"
  using rnd_of_int [of "numeral w"] by simp

lemma rnd_neg_numeral: "(numeral w :: int) < 2 ^ 53 \<Longrightarrow> rnd (- numeral w) = Fin (- numeral w)"
  using rnd_of_int [of "- numeral w"] by simp

lemma rnd_0: "rnd 0 = Fin 0"
  by (simp add: rnd_def nearest_def)

lemma rnd_1: "rnd 1 = Fin 1"
  using rnd_of_int [of 1] by simp

lemma rnd_neg_1: "rnd (- 1) = Fin (- 1)"
  using rnd_of_int [of "- 1"] by simp

lemmas rnd_eval = rnd_numeral rnd_neg_numeral rnd_0 rnd_1 rnd_neg_1

lemma rnd_ge_1:
  assumes "1 \<le> x"
  shows "rnd x = PInf \<or> (\<exists>r. rnd x = Fin r \<and> 1 \<le> r)"
proof -
  have "nearest 1 \<le> nearest x" using assms by (intro nearest_mono) simp_all
  moreover have "nearest 1 = 1" using rnd_1 by (simp add: rnd_def Let_def split: if_splits)
  ultimately have "1 \<le> nearest x" by simp
  then show ?thesis by (simp add: rnd_def Let_def)
qed

lemma rnd_positive: "1 \<le> x \<Longrightarrow> num_less (Fin 0) (rnd x)"
  using rnd_ge_1 [of x] by auto

section \<open>Splitting, trimming and \<open>parseInt\<close>\<close>

lemmas parse_eval = sizeArray_def parseInt_def trim_def isWhiteSpace_def isRadixDigit_def
  digitValue_def mathInt_def rnd_eval Let_def

lemma split_on_nonempty: "split_on sep s \<noteq> []"
  by (induction s) (auto split: list.splits)

lemma split_on_single: "sep \<notin> set e \<Longrightarrow> split_on sep e = [e]"
  by (induction e) auto

lemma split_on_append: "sep \<notin> set e \<Longrightarrow> split_on sep (e @ sep # r) = e # split_on sep r"
  by (induction e) auto

lemma sizeArray_single:
  "CHR '','' \<notin> set e \<Longrightarrow>
     sizeArray e = (if num_less (Fin 0) (parseInt (trim e)) then [parseInt (trim e)] else [])"
  by (simp add: sizeArray_def split_on_single)

lemma sizeArray_append:
  "CHR '','' \<notin> set e \<Longrightarrow>
     sizeArray (e @ CHR '','' # r) =
       (if num_less (Fin 0) (parseInt (trim e)) then [parseInt (trim e)] else []) @ sizeArray r"
  by (simp add: sizeArray_def split_on_append)

lemma sizeArray_positive: "s \<in> set (sizeArray input) \<Longrightarrow> num_less (Fin 0) s"
  by (simp add: sizeArray_def)

lemma digit_not_ws: "isRadixDigit 10 c \<Longrightarrow> \<not> isWhiteSpace c \<and> c \<noteq> CHR ''+'' \<and> c \<noteq> CHR ''-'' \<and> c \<noteq> CHR ''x'' \<and> c \<noteq> CHR ''X''"
  by (auto simp: isRadixDigit_def digitValue_def isWhiteSpace_def Let_def split: if_splits)

lemma mathInt_zero: "mathInt 10 [c] = 0" if "c = CHR ''0''"
  using that by (simp add: mathInt_def digitValue_def)

lemma parseInt_prefix:
  assumes "ds \<noteq> []" "\<forall>d \<in> set ds. isRadixDigit 10 d" "\<not> isRadixDigit 10 c" "0 < mathInt 10 ds"
  shows "parseInt (ds @ c # r) = rnd (of_nat (mathInt 10 ds))"
proof -
  obtain a as where ds: "ds = a # as" using assms(1) by (cases ds) auto
  have a: "isRadixDigit 10 a" using assms(2) ds by simp
  note na = digit_not_ws [OF a]
  have hex: "\<not> (case ds @ c # r of a # b # _ \<Rightarrow> a = CHR ''0'' \<and> (b = CHR ''x'' \<or> b = CHR ''X'') | _ \<Rightarrow> False)"
  proof (cases as)
    case Nil
    then show ?thesis using assms(4) ds mathInt_zero [of a] by auto
  next
    case (Cons b bs)
    then have "isRadixDigit 10 b" using assms(2) ds by simp
    then show ?thesis using digit_not_ws [of b] ds Cons by auto
  qed
  have tw: "takeWhile (isRadixDigit 10) (ds @ c # r) = ds"
    using assms(2,3) by (simp add: takeWhile_append2)
  show ?thesis
    using na hex tw assms(1) unfolding parseInt_def Let_def ds
    by (simp add: ds)
qed

section \<open>The two loops and the run\<close>

lemma sizeLoop_icons:
  "fst (sizeLoop f img T szs (icons, c, st)) = icons @ iconsFor f img (nextURL st) szs"
  by (induction szs arbitrary: icons c st)
     (simp_all add: createObjectURL_def setProgress_def Let_def)

lemma sizeLoop_completed:
  "fst (snd (sizeLoop f img T szs (icons, c, st))) = c + length szs"
  by (induction szs arbitrary: icons c st)
     (simp_all add: createObjectURL_def setProgress_def Let_def)

lemma sizeLoop_nextURL:
  "nextURL (snd (snd (sizeLoop f img T szs (icons, c, st)))) = nextURL st + length szs"
  by (induction szs arbitrary: icons c st)
     (simp_all add: createObjectURL_def setProgress_def Let_def)

lemma sizeLoop_objectURLs:
  "objectURLs (snd (snd (sizeLoop f img T szs (icons, c, st)))) =
     objectURLs st \<union> {nextURL st..<nextURL st + length szs}"
proof (induction szs arbitrary: icons c st)
  case Nil
  then show ?case by simp
next
  case (Cons sz szs)
  show ?case
    by (auto simp add: Cons.IH createObjectURL_def setProgress_def Let_def)
qed


lemma sizeLoop_keeps:
  "processedIcons (snd (snd (sizeLoop f img T szs (icons, c, st)))) = processedIcons st \<and>
   files (snd (snd (sizeLoop f img T szs (icons, c, st)))) = files st \<and>
   sizes (snd (snd (sizeLoop f img T szs (icons, c, st)))) = sizes st \<and>
   toasts (snd (snd (sizeLoop f img T szs (icons, c, st)))) = toasts st \<and>
   isProcessing (snd (snd (sizeLoop f img T szs (icons, c, st)))) = isProcessing st"
  by (induction szs arbitrary: icons c st)
     (simp_all add: createObjectURL_def setProgress_def Let_def)

lemma fileLoop_None:
  "decoded f = None \<Longrightarrow>
     fileLoop T szs (f # fs) (icons, c, st) = Inl (snd (createObjectURL st))"
  by (simp add: createObjectURL_def Let_def)

lemma fileLoop_Some:
  assumes "decoded f = Some img"
  shows "fileLoop T szs (f # fs) (icons, c, st) =
           fileLoop T szs fs
             (icons @ iconsFor f img (Suc (nextURL st)) szs,
              c + length szs,
              revokeObjectURL (nextURL st)
                (snd (snd (sizeLoop f img T szs (icons, c, snd (createObjectURL st))))))"
proof -
  define st1 where "st1 = snd (createObjectURL st)"
  obtain A B C where r: "sizeLoop f img T szs (icons, c, st1) = (A, B, C)"
    by (cases "sizeLoop f img T szs (icons, c, st1)") auto
  have n: "nextURL st1 = Suc (nextURL st)" by (simp add: st1_def createObjectURL_def)
  have A: "A = icons @ iconsFor f img (Suc (nextURL st)) szs"
    using sizeLoop_icons [of f img T szs icons c st1] by (simp add: r n)
  have B: "B = c + length szs"
    using sizeLoop_completed [of f img T szs icons c st1] by (simp add: r)
  have "fileLoop T szs (f # fs) (icons, c, st) = fileLoop T szs fs (A, B, revokeObjectURL (nextURL st) C)"
    using r by (simp add: assms Let_def st1_def createObjectURL_def)
  then show ?thesis using r by (simp add: A B st1_def)
qed

lemmas fileLoop_step = fileLoop_None fileLoop_Some

lemma fileLoop_isl:
  "isl (fileLoop T szs fs (icons, c, st)) \<longleftrightarrow> (\<exists>f \<in> set fs. \<not> decodes f)"
proof (induction fs arbitrary: icons c st)
  case Nil
  then show ?case by simp
next
  case (Cons f fs)
  show ?case
  proof (cases "decoded f")
    case None
    then show ?thesis by (simp add: fileLoop_None decodes_def del: fileLoop.simps)
  next
    case (Some img)
    then have "decodes f" by (simp add: decodes_def)
    then show ?thesis by (simp add: fileLoop_Some [OF Some] Cons.IH del: fileLoop.simps)
  qed
qed

lemma fileLoop_keeps:
  "processedIcons (finalState (fileLoop T szs fs (icons, c, st))) = processedIcons st \<and>
   files (finalState (fileLoop T szs fs (icons, c, st))) = files st \<and>
   sizes (finalState (fileLoop T szs fs (icons, c, st))) = sizes st \<and>
   toasts (finalState (fileLoop T szs fs (icons, c, st))) = toasts st \<and>
   isProcessing (finalState (fileLoop T szs fs (icons, c, st))) = isProcessing st"
proof (induction fs arbitrary: icons c st)
  case Nil
  then show ?case by (simp add: finalState_def)
next
  case (Cons f fs)
  show ?case
  proof (cases "decoded f")
    case None
    then show ?thesis
      by (simp add: fileLoop_step finalState_def createObjectURL_def del: fileLoop.simps)
  next
    case (Some img)
    then show ?thesis
      by (simp add: fileLoop_step Cons.IH sizeLoop_keeps revokeObjectURL_def createObjectURL_def
          del: fileLoop.simps)
  qed
qed


lemma map_iconsFor:
  assumes "\<And>sz u. h (newIcon f img sz u) = g sz"
  shows "map h (iconsFor f img a szs) = map g szs"
  by (induction szs arbitrary: a) (simp_all add: assms)

lemma fileLoop_icons:
  assumes "fileLoop T szs fs (icons, c, st) = Inr (icons', c', st')"
  shows "map (\<lambda>i. (originalName i, iconSize i)) icons' =
           map (\<lambda>i. (originalName i, iconSize i)) icons @ List.product (map name fs) szs \<and>
         map filename icons' =
           map filename icons @ concat (map (\<lambda>f. map (filenameOf (name f)) szs) fs) \<and>
         map iconId icons' =
           map iconId icons @ concat (map (\<lambda>f. map (idOf (name f)) szs) fs) \<and>
         map iconBlob icons' =
           map iconBlob icons @
             concat (map (\<lambda>f. map (\<lambda>sz. render sz (the (decoded f))) szs) fs) \<and>
         c' = c + length fs * length szs"
  using assms
proof (induction fs arbitrary: icons c st)
  case Nil
  then show ?case by simp
next
  case (Cons f fs)
  show ?case
  proof (cases "decoded f")
    case None
    then show ?thesis using Cons.prems by (simp add: fileLoop_step del: fileLoop.simps)
  next
    case (Some img)
    note ih = Cons.IH [OF Cons.prems [unfolded fileLoop_Some [OF Some]]]
    have m1: "map (\<lambda>i. (originalName i, iconSize i)) (iconsFor f img a szs) =
              map (Pair (name f)) szs" for a
      by (rule map_iconsFor) (simp add: newIcon_def)
    have m2: "map filename (iconsFor f img a szs) = map (filenameOf (name f)) szs" for a
      by (rule map_iconsFor) (simp add: newIcon_def)
    have m3: "map iconId (iconsFor f img a szs) = map (idOf (name f)) szs" for a
      by (rule map_iconsFor) (simp add: newIcon_def)
    have m4: "map iconBlob (iconsFor f img a szs) = map (\<lambda>sz. render sz img) szs" for a
      by (rule map_iconsFor) (simp add: newIcon_def)
    show ?thesis
      using ih by (simp add: m1 m2 m3 m4 Some)
  qed
qed






lemma processImages_rejected:
  "files st = [] \<Longrightarrow> processImages st = showToast NoFilesSelected st"
  "files st \<noteq> [] \<Longrightarrow> sizeArray (sizes st) = [] \<Longrightarrow> processImages st = showToast InvalidSizes st"
  by (simp_all add: processImages_def)

lemma processImages_run:
  assumes "files st \<noteq> []" "sizeArray (sizes st) \<noteq> []"
  shows "processImages st =
    (case fileLoop (length (files st) * length (sizeArray (sizes st))) (sizeArray (sizes st))
            (files st) ([], 0, started st) of
       Inr (icons, c, st2) \<Rightarrow>
         (showToast (ProcessingComplete (length icons)) (st2\<lparr>processedIcons := icons\<rparr>))
           \<lparr>isProcessing := False\<rparr>
     | Inl st2 \<Rightarrow> (showToast ProcessingFailed st2)\<lparr>isProcessing := False\<rparr>)"
  using assms by (simp add: processImages_def Let_def started_def)

lemma processImages_failed:
  assumes "sizeArray (sizes st) \<noteq> []" "\<exists>f \<in> set (files st). \<not> decodes f"
  shows "processImages st =
    (showToast ProcessingFailed
       (finalState (fileLoop (length (files st) * length (sizeArray (sizes st)))
          (sizeArray (sizes st)) (files st) ([], 0, started st))))\<lparr>isProcessing := False\<rparr>"
proof -
  have f: "files st \<noteq> []" using assms(2) by auto
  have "isl (fileLoop (length (files st) * length (sizeArray (sizes st))) (sizeArray (sizes st))
          (files st) ([], 0, started st))"
    using assms(2) by (simp add: fileLoop_isl)
  then show ?thesis
    by (auto simp add: processImages_run [OF f assms(1)] finalState_def isl_def)
qed

lemma processImages_completed:
  assumes "files st \<noteq> []" "sizeArray (sizes st) \<noteq> []" "\<forall>f \<in> set (files st). decodes f"
  shows "\<exists>icons c st2.
     fileLoop (length (files st) * length (sizeArray (sizes st))) (sizeArray (sizes st))
        (files st) ([], 0, started st) = Inr (icons, c, st2) \<and>
     processImages st =
       (showToast (ProcessingComplete (length icons)) (st2\<lparr>processedIcons := icons\<rparr>))
         \<lparr>isProcessing := False\<rparr>"
proof -
  have "\<not> isl (fileLoop (length (files st) * length (sizeArray (sizes st))) (sizeArray (sizes st))
          (files st) ([], 0, started st))"
    using assms(3) by (simp add: fileLoop_isl)
  then obtain r where r: "fileLoop (length (files st) * length (sizeArray (sizes st)))
      (sizeArray (sizes st)) (files st) ([], 0, started st) = Inr r"
    by (cases "fileLoop (length (files st) * length (sizeArray (sizes st)))
      (sizeArray (sizes st)) (files st) ([], 0, started st)") auto
  obtain icons c st2 where "r = (icons, c, st2)" by (cases r) auto
  then show ?thesis using r by (simp add: processImages_run [OF assms(1,2)])
qed

lemma started_fields:
  "processedIcons (started st) = processedIcons st" "files (started st) = files st"
  "sizes (started st) = sizes st" "toasts (started st) = toasts st"
  "progressLog (started st) = progressLog st @ [Fin 0]"
  "objectURLs (started st) = objectURLs st" "nextURL (started st) = nextURL st"
  by (simp_all add: started_def setProgress_def)

section \<open>The parsed target sizes\<close>

lemma ilog2_ge_0: "1 \<le> x \<Longrightarrow> 0 \<le> ilog2 x"
proof -
  assume x: "1 \<le> x"
  have "ilog2 1 = 0" by (rule ilog2_unique) (simp_all add: pow2_def)
  moreover have "ilog2 1 \<le> ilog2 x" using x by (intro ilog2_mono) simp_all
  ultimately show ?thesis by simp
qed

lemma nearest_of_int: "\<exists>k. nearest (of_int n) = of_int k"
proof (cases "n = 0")
  case True
  then show ?thesis by (simp add: nearest_def)
next
  case False
  define x :: rat where "x = of_int n"
  define q where "q = max (ilog2 \<bar>x\<bar> - 52) (- 1074)"
  have x0: "x \<noteq> 0" using False by (simp add: x_def)
  have "1 \<le> \<bar>n\<bar>" using False by linarith
  then have "(1 :: rat) \<le> of_int \<bar>n\<bar>" by (simp only: of_int_1_le_iff)
  then have "1 \<le> \<bar>x\<bar>" by (simp add: x_def)
  then have e: "0 \<le> ilog2 \<bar>x\<bar>" by (rule ilog2_ge_0)
  have n: "nearest x = pow2 q * of_int (roundHalfEven (x / pow2 q))"
    using x0 by (simp add: nearest_def quantum_def q_def)
  show ?thesis
  proof (cases "0 \<le> q")
    case True
    then have "pow2 q = of_int (2 ^ nat q)" by (rule pow2_nat)
    then have "nearest x = of_int (2 ^ nat q * roundHalfEven (x / pow2 q))"
      by (simp add: n)
    then show ?thesis unfolding x_def by blast
  next
    case False
    then have "0 \<le> - q" by simp
    have "pow2 0 = pow2 q * pow2 (- q)" by (simp flip: pow2_add)
    then have inv: "pow2 q * pow2 (- q) = 1" by (simp add: pow2_def)
    then have "x / pow2 q = x * pow2 (- q)"
      using pow2_pos [of q] by (simp add: field_simps)
    also have "\<dots> = of_int (n * 2 ^ nat (- q))"
      using pow2_nat [OF \<open>0 \<le> - q\<close>] by (simp add: x_def)
    finally have d: "x / pow2 q = of_int (n * 2 ^ nat (- q))" .
    have "of_int (roundHalfEven (x / pow2 q)) = x / pow2 q"
      unfolding d by (simp only: roundHalfEven_of_int)
    then have "nearest x = pow2 q * (x / pow2 q)" by (simp only: n)
    also have "\<dots> = pow2 q * (x * pow2 (- q))"
      using pow2_pos [of q] inv by (simp add: field_simps)
    also have "\<dots> = x" using inv by (simp add: mult.left_commute)
    finally show ?thesis unfolding x_def by blast
  qed
qed

lemma parseInt_integer:
  "parseInt str = NaN \<or> parseInt str = PInf \<or> parseInt str = NInf \<or>
   (\<exists>k. parseInt str = Fin (of_int k))"
proof -
  have "rnd (of_int n) = PInf \<or> rnd (of_int n) = NInf \<or> (\<exists>k. rnd (of_int n) = Fin (of_int k))"
    for n
    using nearest_of_int [of n] by (auto simp add: rnd_def Let_def)
  then show ?thesis unfolding parseInt_def Let_def by (auto simp only: split: if_splits)
qed

lemma sizeArray_integer:
  assumes "s \<in> set (sizeArray input)"
  shows "s = PInf \<or> (\<exists>k. 0 < k \<and> s = Fin (of_int k))"
proof -
  from assms obtain e where s: "s = parseInt (trim e)" and p: "num_less (Fin 0) s"
    by (auto simp add: sizeArray_def)
  from parseInt_integer [of "trim e"] show ?thesis
    using p unfolding s [symmetric] by auto
qed

text \<open>
  C4: the size text is split on commas, every entry is trimmed and parsed as an integer, and
  the entries whose value is not greater than zero (the non-numeric ones, whose value is NaN,
  among them) are discarded, in order: an entry \<open>e\<close> without a comma contributes its parsed
  value if that is positive and nothing otherwise, alone or in front of a comma and the rest
  of the text; every size that is kept is a positive integer (or, for a digit string beyond
  the range of the numbers, positive infinity).  The text "16, 32,48 ,128" gives
  16, 32, 48, 128 and the text "0,-5,abc,64" gives 64 only.
\<close>

theorem sizeArray_splits_trims_parses_filters:
  "(CHR '','' \<notin> set e \<longrightarrow>
      sizeArray e = (if num_less (Fin 0) (parseInt (trim e)) then [parseInt (trim e)] else []) \<and>
      sizeArray (e @ CHR '','' # r) =
        (if num_less (Fin 0) (parseInt (trim e)) then [parseInt (trim e)] else []) @ sizeArray r) \<and>
   (\<forall>s \<in> set (sizeArray input).
      num_less (Fin 0) s \<and> (s = PInf \<or> (\<exists>k. 0 < k \<and> s = Fin (of_int k)))) \<and>
   sizeArray ''16, 32,48 ,128'' = [Fin 16, Fin 32, Fin 48, Fin 128] \<and>
   sizeArray ''0,-5,abc,64'' = [Fin 64]"
proof -
  have "sizeArray ''16, 32,48 ,128'' = [Fin 16, Fin 32, Fin 48, Fin 128]"
    by (simp add: parse_eval)
  moreover have "sizeArray ''0,-5,abc,64'' = [Fin 64]"
    by (simp add: parse_eval)
  ultimately show ?thesis
    using sizeArray_single [of e] sizeArray_append [of e r] sizeArray_positive [of _ input]
      sizeArray_integer [of _ input]
    by blast
qed

theorem sizeArray_splits_trims_parses_filters_witness:
  "CHR '','' \<notin> set '' abc '' \<and> sizeArray '' abc '' = [] \<and>
   sizeArray ('' abc '' @ CHR '','' # ''64'') = [Fin 64] \<and>
   Fin 64 \<in> set (sizeArray ''5 ,64'') \<and> num_less (Fin 0) (Fin 64)"
proof -
  have a: "CHR '','' \<notin> set '' abc ''" by simp
  have b: "parseInt (trim '' abc '') = NaN" by (simp add: parse_eval)
  have c: "sizeArray ''64'' = [Fin 64]" by (simp add: parse_eval)
  have d: "Fin 64 \<in> set (sizeArray ''5 ,64'')" by (simp add: parse_eval)
  show ?thesis
    using sizeArray_splits_trims_parses_filters [of "'' abc ''" "''64''" "''5 ,64''"] a b c d
    by simp
qed

text \<open>
  C10: an entry whose trimmed text is a non-empty run of decimal digits \<open>ds\<close> of positive
  value followed by a character \<open>c\<close> that is not a decimal digit is kept: it contributes
  the value of \<open>ds\<close> (as a Number, so exactly when the value is below \<open>2 ^ 53\<close>).  The
  entries "12px" and "3.5" contribute 12 and 3.
\<close>

theorem sizeArray_keeps_integer_prefix:
  assumes "CHR '','' \<notin> set e" and "trim e = ds @ c # r"
    and "ds \<noteq> []" and "\<forall>d \<in> set ds. isRadixDigit 10 d" and "\<not> isRadixDigit 10 c"
    and "0 < mathInt 10 ds"
  shows "sizeArray e = [rnd (of_nat (mathInt 10 ds))] \<and>
         (mathInt 10 ds < 2 ^ 53 \<longrightarrow> sizeArray e = [Fin (of_nat (mathInt 10 ds))]) \<and>
         sizeArray ''12px'' = [Fin 12] \<and> sizeArray ''3.5'' = [Fin 3]"
proof -
  have p: "parseInt (trim e) = rnd (of_nat (mathInt 10 ds))"
    using parseInt_prefix [OF assms(3,4,5,6)] assms(2) by simp
  have "(1 :: rat) \<le> of_nat (mathInt 10 ds)" using assms(6) by simp
  then have "num_less (Fin 0) (rnd (of_nat (mathInt 10 ds)))" by (rule rnd_positive)
  then have s: "sizeArray e = [rnd (of_nat (mathInt 10 ds))]"
    using sizeArray_single [OF assms(1)] p by simp
  have "rnd (of_nat (mathInt 10 ds)) = Fin (of_nat (mathInt 10 ds))" if "mathInt 10 ds < 2 ^ 53"
  proof -
    have "\<bar>int (mathInt 10 ds)\<bar> < 2 ^ 53" using that by simp
    then show ?thesis using rnd_of_int [of "int (mathInt 10 ds)"] by simp
  qed
  moreover have "sizeArray ''12px'' = [Fin 12]" "sizeArray ''3.5'' = [Fin 3]"
    by (simp_all add: parse_eval)
  ultimately show ?thesis using s by simp
qed

theorem sizeArray_keeps_integer_prefix_witness:
  "CHR '','' \<notin> set '' 48px '' \<and> trim '' 48px '' = ''48'' @ CHR ''p'' # ''x'' \<and>
   isRadixDigit 10 CHR ''4'' \<and> isRadixDigit 10 CHR ''8'' \<and> \<not> isRadixDigit 10 CHR ''p'' \<and>
   0 < mathInt 10 ''48'' \<and> mathInt 10 ''48'' < 2 ^ 53 \<and>
   sizeArray '' 48px '' = [Fin (of_nat (mathInt 10 ''48''))] \<and> mathInt 10 ''48'' = 48"
proof -
  have a: "CHR '','' \<notin> set '' 48px ''" by simp
  have b: "trim '' 48px '' = ''48'' @ CHR ''p'' # ''x''" by (simp add: trim_def isWhiteSpace_def)
  have c: "''48'' \<noteq> []" by simp
  have d: "\<forall>d \<in> set ''48''. isRadixDigit 10 d" by (simp add: isRadixDigit_def digitValue_def)
  have e: "\<not> isRadixDigit 10 CHR ''p''" by (simp add: isRadixDigit_def digitValue_def)
  have m: "mathInt 10 ''48'' = 48" by (simp add: mathInt_def digitValue_def)
  have f: "0 < mathInt 10 ''48''" by (simp add: m)
  show ?thesis
    using sizeArray_keeps_integer_prefix [OF a b c d e f] a b d e m by (simp add: rnd_eval)
qed

section \<open>Validation, success and failure of a run\<close>

lemma processImages_success_toast:
  assumes "files st \<noteq> []" "sizeArray (sizes st) \<noteq> []" "\<forall>f \<in> set (files st). decodes f"
  shows "toasts (processImages st) =
           ProcessingComplete (length (files st) * length (sizeArray (sizes st))) # toasts st"
proof -
  from processImages_completed [OF assms]
  obtain icons c st2 where
    r: "fileLoop (length (files st) * length (sizeArray (sizes st))) (sizeArray (sizes st))
          (files st) ([], 0, started st) = Inr (icons, c, st2)"
    and p: "processImages st =
       (showToast (ProcessingComplete (length icons)) (st2\<lparr>processedIcons := icons\<rparr>))
         \<lparr>isProcessing := False\<rparr>"
    by blast
  have "map (\<lambda>i. (originalName i, iconSize i)) icons =
          List.product (map name (files st)) (sizeArray (sizes st))"
    using fileLoop_icons [OF r] by simp
  from arg_cong [OF this, of length]
  have "length icons = length (files st) * length (sizeArray (sizes st))" by simp
  moreover have "toasts st2 = toasts st"
    using fileLoop_keeps [of "length (files st) * length (sizeArray (sizes st))"
      "sizeArray (sizes st)" "files st" "[]" 0 "started st"]
    by (simp add: r finalState_def started_fields)
  ultimately show ?thesis by (simp add: p showToast_def)
qed

lemma processImages_keeps:
  "files (processImages st) = files st \<and> sizes (processImages st) = sizes st"
proof (cases "files st = [] \<or> sizeArray (sizes st) = []")
  case True
  then show ?thesis
    using processImages_rejected [of st] by (cases "files st = []") (simp_all add: showToast_def)
next
  case False
  let ?r = "fileLoop (length (files st) * length (sizeArray (sizes st))) (sizeArray (sizes st))
              (files st) ([], 0, started st)"
  have "files (processImages st) = files (finalState ?r) \<and>
        sizes (processImages st) = sizes (finalState ?r)"
    using False by (cases ?r) (auto simp add: processImages_run finalState_def showToast_def)
  then show ?thesis
    using fileLoop_keeps [of "length (files st) * length (sizeArray (sizes st))"
      "sizeArray (sizes st)" "files st" "[]" 0 "started st"]
    by (simp add: started_fields)
qed

lemma logo_sizes: "sizeArray (sizes logoState) = [Fin 16, Fin 32]"
  by (simp add: logoState_def parse_eval)

lemma logo_files: "files logoState = [logoFile]"
  by (simp add: logoState_def)

lemma logo_toasts: "toasts (processImages logoState) = ProcessingComplete 2 # toasts logoState"
  using processImages_success_toast [of logoState]
  by (simp add: logo_sizes logo_files decodes_def logoFile_def)

lemma processImages_success_icons:
  assumes "files st \<noteq> []" "sizeArray (sizes st) \<noteq> []" "\<forall>f \<in> set (files st). decodes f"
  shows "map (\<lambda>i. (originalName i, iconSize i)) (processedIcons (processImages st)) =
           List.product (map name (files st)) (sizeArray (sizes st))"
    and "map filename (processedIcons (processImages st)) =
           concat (map (\<lambda>f. map (filenameOf (name f)) (sizeArray (sizes st))) (files st))"
    and "map iconId (processedIcons (processImages st)) =
           concat (map (\<lambda>f. map (idOf (name f)) (sizeArray (sizes st))) (files st))"
    and "map iconBlob (processedIcons (processImages st)) =
           concat (map (\<lambda>f. map (\<lambda>sz. render sz (the (decoded f))) (sizeArray (sizes st)))
             (files st))"
proof -
  from processImages_completed [OF assms]
  obtain icons c st2 where
    r: "fileLoop (length (files st) * length (sizeArray (sizes st))) (sizeArray (sizes st))
          (files st) ([], 0, started st) = Inr (icons, c, st2)"
    and p: "processImages st =
       (showToast (ProcessingComplete (length icons)) (st2\<lparr>processedIcons := icons\<rparr>))
         \<lparr>isProcessing := False\<rparr>"
    by blast
  have i: "processedIcons (processImages st) = icons" by (simp add: p showToast_def)
  show "map (\<lambda>i. (originalName i, iconSize i)) (processedIcons (processImages st)) =
           List.product (map name (files st)) (sizeArray (sizes st))"
    and "map filename (processedIcons (processImages st)) =
           concat (map (\<lambda>f. map (filenameOf (name f)) (sizeArray (sizes st))) (files st))"
    and "map iconId (processedIcons (processImages st)) =
           concat (map (\<lambda>f. map (idOf (name f)) (sizeArray (sizes st))) (files st))"
    and "map iconBlob (processedIcons (processImages st)) =
           concat (map (\<lambda>f. map (\<lambda>sz. render sz (the (decoded f))) (sizeArray (sizes st)))
             (files st))"
    using fileLoop_icons [OF r] by (simp_all add: i)
qed

lemma dup_sizes: "sizeArray (sizes duplicateState) = [Fin 16, Fin 16]"
  by (simp add: duplicateState_def parse_eval)

lemma dup_files: "files duplicateState = [iconFile]"
  by (simp add: duplicateState_def)

lemma logo_length: "length (processedIcons (processImages logoState)) = 2"
  using arg_cong [OF processImages_success_icons(1) [of logoState], of length]
  by (simp add: logo_sizes logo_files decodes_def logoFile_def)

lemma rnd_half: "rnd (1 / 2) = Fin (1 / 2)"
  using rnd_exact [of "1 / 2" "- 1" 1] by (simp add: pow2_def)


text \<open>
  C8: with no file selected, or with a size text that parses to no size (as "" and "0,-1"
  do), the run is rejected before any processing: the state is left as it is but for the
  toast that signals the validation failure, so the files, the result set, the progress and
  the object URLs are unchanged.
\<close>

theorem validation_rejects_without_mutation:
  "(files st = [] \<longrightarrow> processImages st = st\<lparr>toasts := NoFilesSelected # toasts st\<rparr>) \<and>
   (files st \<noteq> [] \<and> sizeArray (sizes st) = [] \<longrightarrow>
      processImages st = st\<lparr>toasts := InvalidSizes # toasts st\<rparr>) \<and>
   sizeArray '''' = [] \<and> sizeArray ''0,-1'' = []"
proof -
  have "sizeArray '''' = []" "sizeArray ''0,-1'' = []" by (simp_all add: parse_eval)
  then show ?thesis
    using processImages_rejected [of st] by (simp add: showToast_def)
qed

theorem validation_rejects_without_mutation_witness:
  "files initialState = [] \<and>
   processImages initialState = initialState\<lparr>toasts := [NoFilesSelected]\<rparr> \<and>
   files (initialState\<lparr>files := [\<lparr>name = ''a.png'', decoded = Some (1, 1)\<rparr>], sizes := ''0,-1''\<rparr>) \<noteq> [] \<and>
   sizeArray (sizes (initialState\<lparr>files := [\<lparr>name = ''a.png'', decoded = Some (1, 1)\<rparr>], sizes := ''0,-1''\<rparr>)) = [] \<and>
   processImages (initialState\<lparr>files := [\<lparr>name = ''a.png'', decoded = Some (1, 1)\<rparr>], sizes := ''0,-1''\<rparr>) =
     initialState\<lparr>files := [\<lparr>name = ''a.png'', decoded = Some (1, 1)\<rparr>], sizes := ''0,-1'', toasts := [InvalidSizes]\<rparr>"
proof -
  have z: "sizeArray ''0,-1'' = []" by (simp add: parse_eval)
  show ?thesis
    using validation_rejects_without_mutation [of initialState]
      validation_rejects_without_mutation
        [of "initialState\<lparr>files := [\<lparr>name = ''a.png'', decoded = Some (1, 1)\<rparr>], sizes := ''0,-1''\<rparr>"]
    by (simp add: initialState_def z)
qed

text \<open>
  C1, as stated, fails when the size text repeats a size: with the one file
  \<^verbatim>\<open>icon.png\<close> and the size text "16,16" the set of parsed sizes has one element, and the
  run completes with two icons, not one.
\<close>

theorem run_counts_entries_not_distinct_sizes:
  "files duplicateState \<noteq> [] \<and> set (sizeArray (sizes duplicateState)) \<noteq> {} \<and>
   toasts (processImages duplicateState) = ProcessingComplete 2 # toasts duplicateState \<and>
   length (processedIcons (processImages duplicateState)) = 2 \<and>
   length (files duplicateState) * card (set (sizeArray (sizes duplicateState))) = 1"
proof -
  have a: "files duplicateState \<noteq> []" by (simp add: dup_files)
  have b: "sizeArray (sizes duplicateState) \<noteq> []" by (simp add: dup_sizes)
  have c: "\<forall>f \<in> set (files duplicateState). decodes f"
    by (simp add: dup_files decodes_def iconFile_def)
  have "length (processedIcons (processImages duplicateState)) = 2"
    using arg_cong [OF processImages_success_icons(1) [OF a b c], of length]
    by (simp add: dup_sizes dup_files)
  then show ?thesis
    using processImages_success_toast [OF a b c] by (simp add: dup_sizes dup_files)
qed

text \<open>
  C1, amended: for a non-empty list of files and a non-empty list of parsed sizes, a run that
  completes (it shows the completion toast) sets exactly as many icons as there are files
  times entries of the parsed size list, repeated sizes counted as often as they occur, and
  reports that number; that is the number of files times the number of elements of the set
  of sizes exactly when the parsed sizes are distinct.  The icons are, in order, the pairs of a file
  name and a size: the edge of every icon is one of the sizes and its source name one of
  the file names.
\<close>

theorem successful_run_is_cross_product:
  assumes "files st \<noteq> []" and "sizeArray (sizes st) \<noteq> []"
    and "toasts (processImages st) = ProcessingComplete n # toasts st"
  shows "length (processedIcons (processImages st)) =
           length (files st) * length (sizeArray (sizes st)) \<and>
         n = length (files st) * length (sizeArray (sizes st)) \<and>
         (distinct (sizeArray (sizes st)) \<longleftrightarrow>
            length (processedIcons (processImages st)) =
              length (files st) * card (set (sizeArray (sizes st)))) \<and>
         map (\<lambda>i. (originalName i, iconSize i)) (processedIcons (processImages st)) =
           List.product (map name (files st)) (sizeArray (sizes st)) \<and>
         (\<forall>icon \<in> set (processedIcons (processImages st)).
            iconSize icon \<in> set (sizeArray (sizes st)) \<and>
            originalName icon \<in> name ` set (files st))"
proof -
  let ?T = "length (files st) * length (sizeArray (sizes st))"
  let ?r = "fileLoop ?T (sizeArray (sizes st)) (files st) ([], 0, started st)"
  have ok: "\<forall>f \<in> set (files st). decodes f"
  proof (rule ccontr)
    assume "\<not> (\<forall>f \<in> set (files st). decodes f)"
    then have "\<exists>f \<in> set (files st). \<not> decodes f" by simp
    from processImages_failed [OF assms(2) this]
    have "toasts (processImages st) = ProcessingFailed # toasts st"
      using fileLoop_keeps [of ?T "sizeArray (sizes st)" "files st" "[]" 0 "started st"]
      by (simp add: showToast_def started_fields)
    then show False using assms(3) by simp
  qed
  from processImages_completed [OF assms(1,2) ok]
  obtain icons c st2 where r: "?r = Inr (icons, c, st2)"
    and p: "processImages st =
       (showToast (ProcessingComplete (length icons)) (st2\<lparr>processedIcons := icons\<rparr>))
         \<lparr>isProcessing := False\<rparr>"
    by blast
  have icons: "processedIcons (processImages st) = icons" by (simp add: p showToast_def)
  have n: "n = length icons" using assms(3) by (simp add: p showToast_def)
  note i = fileLoop_icons [OF r]
  have m: "map (\<lambda>i. (originalName i, iconSize i)) icons =
           List.product (map name (files st)) (sizeArray (sizes st))"
    using i by simp
  have l: "length icons = ?T"
    using arg_cong [OF m, of length] by simp
  have "iconSize icon \<in> set (sizeArray (sizes st)) \<and> originalName icon \<in> name ` set (files st)"
    if "icon \<in> set icons" for icon
  proof -
    have "(originalName icon, iconSize icon) \<in> set (map (\<lambda>i. (originalName i, iconSize i)) icons)"
      using that by force
    then show ?thesis unfolding m by auto
  qed
  moreover have "distinct (sizeArray (sizes st)) \<longleftrightarrow>
      length icons = length (files st) * card (set (sizeArray (sizes st)))"
  proof -
    have "distinct (sizeArray (sizes st)) \<longleftrightarrow>
        card (set (sizeArray (sizes st))) = length (sizeArray (sizes st))"
      using distinct_card card_distinct by blast
    then show ?thesis using assms(1) l by auto
  qed
  ultimately show ?thesis using m l n icons by simp
qed

theorem successful_run_is_cross_product_witness:
  "files logoState \<noteq> [] \<and> sizeArray (sizes logoState) \<noteq> [] \<and>
   toasts (processImages logoState) = ProcessingComplete 2 # toasts logoState \<and>
   distinct (sizeArray (sizes logoState)) \<and>
   length (processedIcons (processImages logoState)) = 2 \<and>
   length (files logoState) * card (set (sizeArray (sizes logoState))) = 2 \<and>
   map (\<lambda>i. (originalName i, iconSize i)) (processedIcons (processImages logoState)) =
     [(''logo.png'', Fin 16), (''logo.png'', Fin 32)]"
proof -
  have a: "files logoState \<noteq> []" by (simp add: logo_files)
  have b: "sizeArray (sizes logoState) \<noteq> []" by (simp add: logo_sizes)
  show ?thesis
    using successful_run_is_cross_product [OF a b logo_toasts] a b logo_toasts
    by (simp add: logo_sizes logo_files logoFile_def)
qed

text \<open>
  C3: if one of the files fails to decode in a run that has started (the size text parses
  to a size), the run fails as a whole: the failure toast is shown, no icon computed in the
  run reaches the result set, and the result set shown before is unchanged, as are the
  files and the size text.
\<close>

theorem decode_failure_keeps_results:
  assumes "\<exists>f \<in> set (files st). \<not> decodes f" and "sizeArray (sizes st) \<noteq> []"
  shows "processedIcons (processImages st) = processedIcons st \<and>
         toasts (processImages st) = ProcessingFailed # toasts st \<and>
         files (processImages st) = files st \<and> sizes (processImages st) = sizes st \<and>
         isProcessing (processImages st) = False"
  using processImages_failed [OF assms(2,1)]
    fileLoop_keeps [of "length (files st) * length (sizeArray (sizes st))" "sizeArray (sizes st)"
      "files st" "[]" 0 "started st"]
  by (simp add: showToast_def started_fields)

theorem decode_failure_keeps_results_witness:
  "brokenFile \<in> set (files ((processImages logoState)\<lparr>files := [logoFile, brokenFile]\<rparr>)) \<and>
   \<not> decodes brokenFile \<and>
   sizeArray (sizes ((processImages logoState)\<lparr>files := [logoFile, brokenFile]\<rparr>)) \<noteq> [] \<and>
   length (processedIcons ((processImages logoState)\<lparr>files := [logoFile, brokenFile]\<rparr>)) = 2 \<and>
   processedIcons (processImages ((processImages logoState)\<lparr>files := [logoFile, brokenFile]\<rparr>)) =
     processedIcons (processImages logoState) \<and>
   toasts (processImages ((processImages logoState)\<lparr>files := [logoFile, brokenFile]\<rparr>)) =
     [ProcessingFailed, ProcessingComplete 2]"
proof -
  let ?st = "(processImages logoState)\<lparr>files := [logoFile, brokenFile]\<rparr>"
  have s: "sizes (processImages logoState) = sizes logoState"
    by (simp add: processImages_keeps)
  have a: "\<exists>f \<in> set (files ?st). \<not> decodes f" by (simp add: decodes_def brokenFile_def)
  have b: "sizeArray (sizes ?st) \<noteq> []" by (simp add: s logo_sizes)
  note l = logo_length
  show ?thesis
    using decode_failure_keeps_results [OF a b] b l logo_toasts
    by (simp add: decodes_def brokenFile_def logoState_def initialState_def)
qed



section \<open>File names\<close>

lemma shortest_miss:
  "candidates x n k = [] \<Longrightarrow> shortest x n k (Suc m) = shortest x n (k + 1) m"
  by simp

lemma shortest_hit:
  "candidates x n k = [c] \<Longrightarrow> shortest x n k m = c"
  by (cases m) simp_all

lemma digits_16: "digitsOf 16 = ''16''"
  by (simp add: digitsOf.simps)

lemma decExp_16: "decimalExponent 16 = 2"
  by (simp add: decimalExponent_def digits_16 pow10_def)

lemma floor_8_5: "\<lfloor>(8 :: rat) / 5\<rfloor> = 1"
  by (rule floor_unique) simp_all

lemma cand_16_1: "candidates 16 2 1 = []"
  by (simp add: candidates_def digitsValue_def pow10_def rnd_eval Let_def floor_8_5)

lemma cand_16_2: "candidates 16 2 (1 + 1) = [(16, 2)]"
  by (simp add: candidates_def digitsValue_def pow10_def rnd_eval Let_def)

lemma numberToString_16: "numberToString (Fin 16) = ''16''"
proof -
  have "shortest 16 2 1 (Suc 15) = shortest 16 2 (1 + 1) 15"
    using cand_16_1 by (rule shortest_miss)
  also have "\<dots> = (16, 2)"
    using cand_16_2 by (rule shortest_hit)
  finally have "shortest 16 2 1 16 = (16, 2)" by simp
  then show ?thesis
    by (simp add: positiveToString_def decExp_16 digits_16)
qed

lemma baseName_icon: "baseName ''icon.png'' = ''icon''"
  by (simp add: extensionAt_def)

lemma filenameOf_16: "filenameOf ''icon.png'' (Fin 16) = ''icon_16x16.png''"
  by (simp add: filenameOf_def extensionAt_def numberToString_16 del: numberToString.simps)

lemma idOf_16: "idOf ''icon.png'' (Fin 16) = ''icon.png-16''"
  by (simp add: idOf_def numberToString_16 del: numberToString.simps)

text \<open>
  C9: parsing does not remove duplicates.  With the one file \<^verbatim>\<open>icon.png\<close> and the
  size text "16,16" the parsed sizes are 16 and 16, the run completes with two icons, one
  for each list entry, and the two have the same file name and the same id.
\<close>

theorem duplicate_sizes_give_duplicate_icons:
  "sizeArray (sizes duplicateState) = [Fin 16, Fin 16] \<and>
   toasts (processImages duplicateState) = [ProcessingComplete 2] \<and>
   map filename (processedIcons (processImages duplicateState)) =
     [''icon_16x16.png'', ''icon_16x16.png''] \<and>
   map iconId (processedIcons (processImages duplicateState)) =
     [''icon.png-16'', ''icon.png-16'']"
proof -
  have a: "files duplicateState \<noteq> []" by (simp add: dup_files)
  have b: "sizeArray (sizes duplicateState) \<noteq> []" by (simp add: dup_sizes)
  have c: "\<forall>f \<in> set (files duplicateState). decodes f"
    by (simp add: dup_files decodes_def iconFile_def)
  have n: "name iconFile = ''icon.png''" by (simp add: iconFile_def)
  have t: "toasts duplicateState = []" by (simp add: duplicateState_def initialState_def)
  show ?thesis
    using processImages_success_toast [OF a b c] processImages_success_icons(2,3) [OF a b c]
    by (simp add: dup_sizes dup_files n t filenameOf_16 idOf_16)
qed

lemma extensionAt_iff:
  "extensionAt s \<longleftrightarrow> (\<exists>e. s = CHR ''.'' # e \<and> e \<noteq> [] \<and> (\<forall>d \<in> set e. d \<noteq> CHR ''/'' \<and> d \<noteq> CHR ''.''))"
  by (cases s) (auto simp: extensionAt_def)

lemma extensionAt_no_dot: "extensionAt (c # cs) \<Longrightarrow> CHR ''.'' \<notin> set cs"
  by (auto simp: extensionAt_def)

lemma baseName_strips:
  assumes "e \<noteq> []" "\<forall>d \<in> set e. d \<noteq> CHR ''/'' \<and> d \<noteq> CHR ''.''"
  shows "baseName (p @ CHR ''.'' # e) = p"
proof (induction p)
  case Nil
  then show ?case using assms by (simp add: extensionAt_def)
next
  case (Cons c p)
  have "\<not> extensionAt (c # p @ CHR ''.'' # e)"
    using extensionAt_no_dot [of c "p @ CHR ''.'' # e"] by auto
  then show ?case using Cons by simp
qed

lemma baseName_fixed: "\<not> hasExtension s \<Longrightarrow> baseName s = s"
  by (induction s) auto

lemma hasExtension_iff:
  "hasExtension s \<longleftrightarrow>
     (\<exists>p e. s = p @ CHR ''.'' # e \<and> e \<noteq> [] \<and> (\<forall>d \<in> set e. d \<noteq> CHR ''/'' \<and> d \<noteq> CHR ''.''))"
proof (induction s)
  case Nil
  then show ?case by simp
next
  case (Cons c s)
  show ?case
  proof
    assume "hasExtension (c # s)"
    then consider "extensionAt (c # s)" | "hasExtension s" by auto
    then show "\<exists>p e. c # s = p @ CHR ''.'' # e \<and> e \<noteq> [] \<and> (\<forall>d \<in> set e. d \<noteq> CHR ''/'' \<and> d \<noteq> CHR ''.'')"
    proof cases
      case 1
      then show ?thesis unfolding extensionAt_iff by (metis append_Nil)
    next
      case 2
      then obtain p e where "s = p @ CHR ''.'' # e" "e \<noteq> []" "\<forall>d \<in> set e. d \<noteq> CHR ''/'' \<and> d \<noteq> CHR ''.''"
        using Cons.IH by blast
      then show ?thesis by (metis append_Cons)
    qed
  next
    assume "\<exists>p e. c # s = p @ CHR ''.'' # e \<and> e \<noteq> [] \<and> (\<forall>d \<in> set e. d \<noteq> CHR ''/'' \<and> d \<noteq> CHR ''.'')"
    then obtain p e where pe: "c # s = p @ CHR ''.'' # e" "e \<noteq> []" "\<forall>d \<in> set e. d \<noteq> CHR ''/'' \<and> d \<noteq> CHR ''.''"
      by blast
    show "hasExtension (c # s)"
    proof (cases p)
      case Nil
      then show ?thesis using pe by (auto simp: extensionAt_def)
    next
      case (Cons c' p')
      then have "s = p' @ CHR ''.'' # e" using pe by simp
      then have "hasExtension s" using Cons.IH pe by blast
      then show ?thesis by simp
    qed
  qed
qed

lemma baseName_shorter: "hasExtension s \<Longrightarrow> length (baseName s) < length s"
proof -
  assume "hasExtension s"
  then obtain p e where "s = p @ CHR ''.'' # e" "e \<noteq> []" "\<forall>d \<in> set e. d \<noteq> CHR ''/'' \<and> d \<noteq> CHR ''.''"
    unfolding hasExtension_iff by blast
  then show ?thesis using baseName_strips [of e p] by simp
qed

lemma baseName_fixed_iff: "baseName s = s \<longleftrightarrow> \<not> hasExtension s"
  using baseName_fixed [of s] baseName_shorter [of s] by auto

text \<open>
  C7, as stated, fails in its idempotence: extracting the base name of \<^verbatim>\<open>a.tar.gz\<close>
  twice gives \<^verbatim>\<open>a\<close>, once gives \<^verbatim>\<open>a.tar\<close>.
\<close>

theorem baseName_not_idempotent:
  "baseName (baseName ''a.tar.gz'') \<noteq> baseName ''a.tar.gz''"
  by (simp add: extensionAt_def)

text \<open>
  C7, amended: the output file name is the base name followed by \<^verbatim>\<open>_{size}x{size}.png\<close>;
  the base name is the name without its last extension (a final dot followed by one or more
  characters other than dot and slash), and a name with no extension is its own base name;
  extracting the base name twice gives the same as once exactly when the base name has no
  extension of its own.  The name \<^verbatim>\<open>icon.png\<close> gives \<^verbatim>\<open>icon\<close>, and \<^verbatim>\<open>icon\<close> is
  left unchanged.
\<close>

theorem filename_strips_last_extension:
  "filenameOf nm sz =
     baseName nm @ ''_'' @ numberToString sz @ ''x'' @ numberToString sz @ ''.png'' \<and>
   (e \<noteq> [] \<and> (\<forall>d \<in> set e. d \<noteq> CHR ''/'' \<and> d \<noteq> CHR ''.'') \<longrightarrow>
      baseName (p @ CHR ''.'' # e) = p) \<and>
   (\<not> hasExtension nm \<longrightarrow> baseName nm = nm) \<and>
   (baseName (baseName nm) = baseName nm \<longleftrightarrow> \<not> hasExtension (baseName nm)) \<and>
   baseName ''icon.png'' = ''icon'' \<and> baseName ''icon'' = ''icon'' \<and>
   filenameOf ''icon.png'' (Fin 16) = ''icon_16x16.png''"
proof -
  have "baseName ''icon'' = ''icon''" by (simp add: extensionAt_def)
  then show ?thesis
    using baseName_strips [of e p] baseName_fixed [of nm] baseName_fixed_iff [of "baseName nm"]
      baseName_icon filenameOf_16
    by (simp add: filenameOf_def del: numberToString.simps)
qed

theorem filename_strips_last_extension_witness:
  "''gz'' \<noteq> [] \<and> CHR ''g'' \<noteq> CHR ''/'' \<and> CHR ''g'' \<noteq> CHR ''.'' \<and> CHR ''z'' \<noteq> CHR ''/'' \<and>
   CHR ''z'' \<noteq> CHR ''.'' \<and> baseName (''a.tar'' @ CHR ''.'' # ''gz'') = ''a.tar'' \<and>
   \<not> hasExtension ''icon'' \<and> baseName ''icon'' = ''icon'' \<and>
   hasExtension (baseName ''a.tar.gz'') \<and>
   baseName (baseName ''a.tar.gz'') \<noteq> baseName ''a.tar.gz'' \<and>
   baseName (baseName ''icon.png'') = baseName ''icon.png''"
proof -
  have h: "\<not> hasExtension ''icon''" by (simp add: extensionAt_def)
  have g: "hasExtension (baseName ''a.tar.gz'')" by (simp add: extensionAt_def)
  have i: "\<not> hasExtension (baseName ''icon.png'')" by (simp add: extensionAt_def)
  show ?thesis
    using filename_strips_last_extension [of "''icon''" "Fin 16" "''gz''" "''a.tar''"]
      filename_strips_last_extension [of "''a.tar.gz''" "Fin 16" "''gz''" "''a.tar''"]
      filename_strips_last_extension [of "''icon.png''" "Fin 16" "''gz''" "''a.tar''"] h g i
    by simp
qed

section \<open>Object URLs\<close>

lemma logo_run:
  "processImages logoState =
     \<lparr>files = [logoFile], sizes = ''16,32'',
      processedIcons = [newIcon logoFile (64, 64) (Fin 16) 1, newIcon logoFile (64, 64) (Fin 32) 2],
      isProcessing = False, progress = percent 2 2, objectURLs = {1, 2}, nextURL = 3,
      toasts = [ProcessingComplete 2], progressLog = [Fin 0, percent 1 2, percent 2 2]\<rparr>"
proof -
  have s: "sizeArray ''16,32'' = [Fin 16, Fin 32]" by (simp add: parse_eval)
  have d: "decoded logoFile = Some (64, 64)" by (simp add: logoFile_def)
  show ?thesis
    by (simp add: processImages_def Let_def createObjectURL_def setProgress_def
        revokeObjectURL_def showToast_def logoState_def initialState_def s d insert_commute
        numeral_2_eq_2 [symmetric])
qed

lemma logo_rerun:
  "processImages (processImages logoState) =
     \<lparr>files = [logoFile], sizes = ''16,32'',
      processedIcons = [newIcon logoFile (64, 64) (Fin 16) 4, newIcon logoFile (64, 64) (Fin 32) 5],
      isProcessing = False, progress = percent 2 2, objectURLs = {1, 2, 4, 5}, nextURL = 6,
      toasts = [ProcessingComplete 2, ProcessingComplete 2],
      progressLog = [Fin 0, percent 1 2, percent 2 2, Fin 0, percent 1 2, percent 2 2]\<rparr>"
proof -
  have s: "sizeArray ''16,32'' = [Fin 16, Fin 32]" by (simp add: parse_eval)
  have d: "decoded logoFile = Some (64, 64)" by (simp add: logoFile_def)
  show ?thesis
    unfolding logo_run
    by (simp add: processImages_def Let_def createObjectURL_def setProgress_def
        revokeObjectURL_def showToast_def s d insert_commute numeral_2_eq_2 [symmetric])
qed

lemma clearAll_releases:
  "objectURLs (clearAll st) = objectURLs st - url ` set (processedIcons st)"
proof -
  have "objectURLs (fold (\<lambda>icon. revokeObjectURL (url icon)) icons s) = objectURLs s - url ` set icons"
    for icons s
    by (induction icons arbitrary: s) (auto simp add: revokeObjectURL_def)
  then show ?thesis by (simp add: clearAll_def setProgress_def)
qed

lemma clearAll_fields:
  "processedIcons (clearAll st) = [] \<and> files (clearAll st) = [] \<and>
   progress (clearAll st) = Fin 0 \<and> progressLog (clearAll st) = progressLog st @ [Fin 0]"
proof -
  have "progressLog (fold (\<lambda>icon. revokeObjectURL (url icon)) icons s) = progressLog s"
    for icons s
    by (induction icons arbitrary: s) (simp_all add: revokeObjectURL_def)
  then show ?thesis by (simp add: clearAll_def setProgress_def)
qed

text \<open>
  A run never releases an object URL that was alive when it started: whatever the result
  set held before stays alive after \<open>processImages\<close>, completed or not.
\<close>

lemma fileLoop_urls:
  assumes "urlsFresh st"
  shows "objectURLs st \<subseteq> objectURLs (finalState (fileLoop T szs fs (icons, c, st))) \<and>
         urlsFresh (finalState (fileLoop T szs fs (icons, c, st)))"
  using assms
proof (induction fs arbitrary: icons c st)
  case Nil
  then show ?case by (simp add: finalState_def)
next
  case (Cons f fs)
  show ?case
  proof (cases "decoded f")
    case None
    then show ?thesis
      using Cons.prems
      by (auto simp add: fileLoop_None finalState_def createObjectURL_def urlsFresh_def
          simp del: fileLoop.simps)
  next
    case (Some img)
    define st3 where "st3 = revokeObjectURL (nextURL st)
      (snd (snd (sizeLoop f img T szs (icons, c, snd (createObjectURL st)))))"
    have o: "objectURLs st3 =
        (insert (nextURL st) (objectURLs st) \<union> {Suc (nextURL st)..<Suc (nextURL st) + length szs})
          - {nextURL st}"
      by (simp add: st3_def revokeObjectURL_def sizeLoop_objectURLs createObjectURL_def)
    have n: "nextURL st3 = Suc (nextURL st) + length szs"
      by (simp add: st3_def revokeObjectURL_def sizeLoop_nextURL createObjectURL_def)
    have sub: "objectURLs st \<subseteq> objectURLs st3"
      using Cons.prems unfolding o urlsFresh_def by auto
    have fresh: "urlsFresh st3"
      using Cons.prems unfolding urlsFresh_def o n by auto
    from Cons.IH [OF fresh] sub show ?thesis
      unfolding fileLoop_Some [OF Some] st3_def by blast
  qed
qed

lemma processImages_keeps_urls:
  assumes "urlsFresh st"
  shows "objectURLs st \<subseteq> objectURLs (processImages st) \<and> urlsFresh (processImages st)"
proof (cases "files st = [] \<or> sizeArray (sizes st) = []")
  case True
  then show ?thesis
    using assms processImages_rejected [of st]
    by (cases "files st = []") (simp_all add: showToast_def urlsFresh_def)
next
  case False
  let ?r = "fileLoop (length (files st) * length (sizeArray (sizes st))) (sizeArray (sizes st))
              (files st) ([], 0, started st)"
  have "objectURLs (processImages st) = objectURLs (finalState ?r) \<and>
        nextURL (processImages st) = nextURL (finalState ?r)"
    using False by (cases ?r) (auto simp add: processImages_run finalState_def showToast_def)
  moreover have "urlsFresh (started st)"
    using assms by (simp add: urlsFresh_def started_fields)
  ultimately show ?thesis
    using fileLoop_urls [of "started st" "length (files st) * length (sizeArray (sizes st))"
      "sizeArray (sizes st)" "files st" "[]" 0]
    by (simp add: urlsFresh_def started_fields)
qed

lemma superseded_urls_alive:
  assumes "urlsFresh st" "url ` set (processedIcons st) \<subseteq> objectURLs st"
  shows "url ` set (processedIcons st) \<subseteq> objectURLs (processImages st)"
  using processImages_keeps_urls [OF assms(1)] assms(2) by blast

lemma initial_fresh: "urlsFresh initialState"
  by (simp add: urlsFresh_def initialState_def)

text \<open>
  C5: clearing releases the object URL of every icon of the result set.  A new run does not:
  after a first run on \<^verbatim>\<open>logo.png\<close> with the sizes 16 and 32 the icons hold the URLs 1 and
  2; after a second, successful run the result set holds the new URLs 4 and 5, and the URLs
  1 and 2 of the superseded result set are still alive.  Had the results been cleared
  instead, no URL would be alive.
\<close>

theorem superseded_handles_stay_alive:
  "map url (processedIcons (processImages logoState)) = [1, 2] \<and>
   objectURLs (processImages logoState) = {1, 2} \<and>
   toasts (processImages (processImages logoState)) = [ProcessingComplete 2, ProcessingComplete 2] \<and>
   map url (processedIcons (processImages (processImages logoState))) = [4, 5] \<and>
   objectURLs (processImages (processImages logoState)) = {1, 2, 4, 5} \<and>
   objectURLs (clearAll (processImages logoState)) = {}"
proof -
  have "objectURLs (clearAll (processImages logoState)) = {}"
    unfolding clearAll_releases logo_run by (simp add: newIcon_def)
  then show ?thesis
    unfolding logo_rerun unfolding logo_run by (simp add: newIcon_def)
qed

section \<open>Aspect-fit scaling in binary64\<close>

text \<open>
  The error of one rounding, for every rational whose magnitude is at most \<open>2 ^ 1023\<close>:
  relative \<open>2 ^ - 53\<close>, plus half the subnormal spacing.
\<close>

lemma tiny_le_quarter: "(1 :: rat) / 2 ^ 1075 \<le> 1 / 4"
  by (simp add: divide_simps)

lemma pow2_m1074: "pow2 (- 1074) / 2 = 1 / 2 ^ 1075"
  by (simp add: pow2_def)

lemma nearest_err_gen: "\<bar>nearest x - x\<bar> \<le> \<bar>x\<bar> / 2 ^ 53 + 1 / 2 ^ 1075"
proof (cases "x = 0")
  case True
  then show ?thesis by (simp add: nearest_def)
next
  case False
  define e where "e = ilog2 \<bar>x\<bar>"
  define u where "u = pow2 (max (e - 52) (- 1074))"
  have x: "0 < \<bar>x\<bar>" using False by simp
  have u: "0 < u" by (simp add: u_def pow2_pos)
  have n: "nearest x = u * of_int (roundHalfEven (x / u))"
    using False by (simp add: nearest_def quantum_def u_def e_def)
  have "\<bar>of_int (roundHalfEven (x / u)) - x / u\<bar> \<le> 1 / 2" by (rule roundHalfEven_err)
  then have "u * \<bar>of_int (roundHalfEven (x / u)) - x / u\<bar> \<le> u * (1 / 2)"
    using u by (simp only: mult_le_cancel_left_pos)
  moreover have "u * \<bar>of_int (roundHalfEven (x / u)) - x / u\<bar> = \<bar>nearest x - x\<bar>"
  proof -
    have "u * \<bar>of_int (roundHalfEven (x / u)) - x / u\<bar> = \<bar>u * (of_int (roundHalfEven (x / u)) - x / u)\<bar>"
      using u by (simp add: abs_mult)
    also have "u * (of_int (roundHalfEven (x / u)) - x / u) = nearest x - x"
      using u by (simp add: n right_diff_distrib)
    finally show ?thesis .
  qed
  ultimately have h: "\<bar>nearest x - x\<bar> \<le> u / 2" by simp
  have "u / 2 \<le> \<bar>x\<bar> / 2 ^ 53 + 1 / 2 ^ 1075"
  proof (cases "- 1074 \<le> e - 52")
    case True
    then have "max (e - 52) (- 1074) = e - 52" by linarith
    then have "u = pow2 (e - 52)" by (simp add: u_def)
    moreover have "pow2 e = pow2 (e - 52) * pow2 52" by (simp flip: pow2_add)
    ultimately have "u / 2 = pow2 e / 2 ^ 53" by (simp add: pow2_def)
    moreover have "pow2 e \<le> \<bar>x\<bar>" using ilog2_bounds [OF x] by (simp add: e_def)
    ultimately have "u / 2 \<le> \<bar>x\<bar> / 2 ^ 53" by (simp add: divide_right_mono)
    then show ?thesis by (simp add: add_increasing2)
  next
    case False
    then have "max (e - 52) (- 1074) = - 1074" by linarith
    then have "u = pow2 (- 1074)" by (simp add: u_def)
    then have "u / 2 = 1 / 2 ^ 1075" by (simp only: pow2_m1074)
    then show ?thesis by simp
  qed
  then show ?thesis using h by linarith
qed

lemma pow2_1023_ge: "1 \<le> pow2 1023"
  using pow2_mono [of 0 1023] by (simp add: pow2_def)

lemma pow2_1024_double: "pow2 1024 = 2 * pow2 1023"
  using pow2_Suc [of 1023] by simp

lemma rnd_err:
  assumes "\<bar>x\<bar> \<le> pow2 1023"
  shows "rnd x = Fin (nearest x) \<and> \<bar>nearest x - x\<bar> \<le> \<bar>x\<bar> / 2 ^ 53 + 1 / 2 ^ 1075"
proof -
  note e = nearest_err_gen [of x]
  have "\<bar>x\<bar> / 2 ^ 53 \<le> pow2 1023 / 2 ^ 53" using assms by (simp add: divide_right_mono)
  moreover have "pow2 1023 / 2 ^ 53 \<le> pow2 1023 / 2" 
    using pow2_pos [of 1023] by (simp add: divide_simps)
  ultimately have "\<bar>nearest x\<bar> < pow2 1024"
    using e assms tiny_le_quarter pow2_1023_ge unfolding pow2_1024_double by linarith
  then have "nearest x < 2 ^ 1024" "- (2 ^ 1024) < nearest x"
    unfolding pow2_1024 by linarith+
  then show ?thesis using e by (simp add: rnd_def Let_def)
qed

lemma two_pow_53: "(2 :: rat) ^ 53 = 9007199254740992" and two_pow_51: "(2 :: rat) ^ 51 = 2251799813685248"
  and two_pow_32: "(2 :: rat) ^ 32 = 4294967296"
  by simp_all

lemma tiny_le_55: "(1 :: rat) / 2 ^ 1075 \<le> 1 / 36028797018963968"
  by (simp add: divide_simps)

lemma pow2_m32: "pow2 (- 32) = 1 / 4294967296" and pow2_m33: "pow2 (- 33) = 1 / 8589934592"
  by (simp_all add: pow2_def)

lemma pow2_small: "pow2 (- 1022) \<le> pow2 (- 33)" "pow2 1022 \<le> pow2 1023" "pow2 1023 = 2 * pow2 1022"
  using pow2_mono [of "- 1022" "- 33"] pow2_mono [of 1022 1023] pow2_Suc [of 1022] by simp_all

text \<open>
  One dimension: the product with the rounded scale, and the offset computed from it.
\<close>

lemma scaled_dim:
  fixes W s m sc :: rat
  assumes W: "1 \<le> W" and s: "1 \<le> s" "s < pow2 1022"
    and m: "1 / 4294967296 \<le> m" "W * m \<le> s"
    and sc: "\<bar>sc - m\<bar> \<le> m / 9007199254740992"
  shows "\<exists>sd od. num_mul (Fin W) (Fin sc) = Fin sd \<and>
           num_div (num_sub (Fin s) (Fin sd)) (Fin 2) = Fin od \<and>
           \<bar>sd - W * m\<bar> \<le> s / 2251799813685248 \<and>
           sd \<le> s + s / 2251799813685248 \<and>
           (W * m = s \<longrightarrow> s - s / 2251799813685248 \<le> sd) \<and>
           \<bar>od - (s - sd) / 2\<bar> \<le> s / 2251799813685248"
proof -
  define P where "P = W * sc"
  define Q where "Q = W * m"
  have Q: "Q \<le> s" "m \<le> Q" using m W by (simp_all add: Q_def mult_le_cancel_right1)
  have "W * \<bar>sc - m\<bar> \<le> W * (m / 9007199254740992)"
    using sc W by (intro mult_left_mono) simp_all
  moreover have "W * \<bar>sc - m\<bar> = \<bar>P - Q\<bar>"
    using W by (simp add: P_def Q_def abs_mult flip: right_diff_distrib)
  ultimately have PQ: "\<bar>P - Q\<bar> \<le> Q / 9007199254740992" by (simp add: Q_def)
  have lo: "pow2 (- 1022) \<le> P"
    using PQ Q m(1) pow2_small(1) unfolding pow2_m33 by linarith
  have hi: "P < pow2 1023"
    using PQ Q s pow2_small(3) by linarith
  from rnd_rel [OF lo hi] obtain sd where sd: "rnd P = Fin sd" "\<bar>sd - P\<bar> \<le> P / 2 ^ 53"
    by blast
  note sd' = sd(2) [unfolded two_pow_53]
  have P0: "0 \<le> P" "P \<le> 2 * s" using PQ Q s(1) by linarith+
  have sd0: "0 \<le> sd" "sd \<le> 2 * s" using sd' PQ Q s(1) by linarith+
  have dd: "\<bar>s - sd\<bar> \<le> s" using sd0 s(1) by linarith
  have d: "\<bar>s - sd\<bar> \<le> pow2 1023"
    using dd s pow2_small(3) by linarith
  define t :: rat where "t = 1 / 2 ^ 1075"
  have t: "0 \<le> t" "t \<le> 1 / 36028797018963968" using tiny_le_55 by (simp_all add: t_def)
  define D where "D = \<bar>s - sd\<bar>"
  have D: "0 \<le> D" "D \<le> s" using dd by (simp_all add: D_def)
  define rd where "rd = nearest (s - sd)"
  have rd1: "rnd (s - sd) = Fin rd" and rd2: "\<bar>rd - (s - sd)\<bar> \<le> D / 9007199254740992 + t"
    using rnd_err [OF d] by (simp_all add: rd_def D_def t_def)
  have o2: "\<bar>rd - (s - sd)\<bar> \<le> s / 9007199254740992 + t" using rd2 D by linarith
  have "\<bar>rd\<bar> \<le> \<bar>rd - (s - sd)\<bar> + D" unfolding D_def by linarith
  then have rr: "\<bar>rd\<bar> \<le> 2 * s" using o2 D t s(1) by linarith
  define E where "E = \<bar>rd / 2\<bar>"
  have E: "0 \<le> E" "E \<le> s" using rr by (simp_all add: E_def)
  have h: "\<bar>rd / 2\<bar> \<le> pow2 1023"
    using E s pow2_small(3) unfolding E_def by linarith
  define od where "od = nearest (rd / 2)"
  have od1: "rnd (rd / 2) = Fin od" and od2: "\<bar>od - rd / 2\<bar> \<le> E / 9007199254740992 + t"
    using rnd_err [OF h] by (simp_all add: od_def E_def t_def)
  have o1: "\<bar>od - rd / 2\<bar> \<le> s / 9007199254740992 + t" using od2 E by linarith
  define X where "X = \<bar>od - (s - sd) / 2\<bar>"
  define Y where "Y = \<bar>od - rd / 2\<bar>"
  define Z where "Z = \<bar>(rd - (s - sd)) / 2\<bar>"
  have "od - (s - sd) / 2 = (od - rd / 2) + (rd - (s - sd)) / 2" by (simp add: field_simps)
  then have XYZ: "X \<le> Y + Z"
    using abs_triangle_ineq [of "od - rd / 2" "(rd - (s - sd)) / 2"] by (simp add: X_def Y_def Z_def)
  have Zb: "Z \<le> (s / 9007199254740992 + t) / 2" using o2 by (simp add: Z_def)
  have Yb: "Y \<le> s / 9007199254740992 + t" using o1 by (simp add: Y_def)
  have "X \<le> s / 2251799813685248" using XYZ Yb Zb s(1) t by (simp add: field_simps)
  then have 6: "\<bar>od - (s - sd) / 2\<bar> \<le> s / 2251799813685248" by (simp add: X_def)
  have 1: "num_mul (Fin W) (Fin sc) = Fin sd" by (simp add: sd(1) flip: P_def)
  have 2: "num_div (num_sub (Fin s) (Fin sd)) (Fin 2) = Fin od" by (simp add: rd1 od1)
  have 3: "\<bar>sd - Q\<bar> \<le> s / 2251799813685248" using sd' PQ Q s by linarith
  have 4: "sd \<le> s + s / 2251799813685248" using 3 Q by linarith
  have 5: "s - s / 2251799813685248 \<le> sd" if "Q = s" using 3 that by linarith
  show ?thesis using 1 2 3 4 5 6 unfolding Q_def by blast
qed

lemma rnd_48_over_187: "rnd (48 / 187) = Fin (2312008364853303 / 9007199254740992)"
  using rnd_eqI [of "- 54" "48 / 187" 4624016729706606] by (simp add: pow2_def)

lemma rnd_187_times_scale: "rnd (432345564227567661 / 9007199254740992) = Fin (6755399441055745 / 140737488355328)"
  using rnd_eqI [of "- 47" "432345564227567661 / 9007199254740992" 6755399441055745]
  by (simp add: pow2_def)

lemma scale_187_at_48: "scale (Fin 48) (187, 187) = Fin (2312008364853303 / 9007199254740992)"
  by (simp add: scale_def rnd_48_over_187 num_min_def)

lemma scaledWidth_187_at_48: "scaledWidth (Fin 48) (187, 187) = Fin (6755399441055745 / 140737488355328)"
  by (simp add: scaledWidth_def scale_187_at_48 rnd_187_times_scale)

lemma scaledHeight_187_at_48: "scaledHeight (Fin 48) (187, 187) = Fin (6755399441055745 / 140737488355328)"
  by (simp add: scaledHeight_def scale_187_at_48 rnd_187_times_scale)

text \<open>
  C2, as stated, fails in binary64 arithmetic: for a 187 by 187 image and the target size
  48 the scale is the binary64 value nearest to 48 / 187, and 187 times that value rounds
  to 48.00000000000000710..., so the scaled width and height exceed the target size and
  neither is equal to it.
\<close>

theorem aspect_fit_exceeds_target:
  "\<not> (num_le (scaledWidth (Fin 48) (187, 187)) (Fin 48) \<and>
      num_le (scaledHeight (Fin 48) (187, 187)) (Fin 48) \<and>
      (scaledWidth (Fin 48) (187, 187) = Fin 48 \<or> scaledHeight (Fin 48) (187, 187) = Fin 48))"
  by (simp add: scaledWidth_187_at_48 scaledHeight_187_at_48)

lemma rnd_25_2: "rnd (25 / 2) = Fin (25 / 2)"
  using rnd_exact [of "25 / 2" "- 1" 25] by (simp add: pow2_def)

lemma example_100_50:
  "scale (Fin 50) (100, 50) = Fin (1 / 2)" "scaledWidth (Fin 50) (100, 50) = Fin 50"
  "scaledHeight (Fin 50) (100, 50) = Fin 25" "offsetX (Fin 50) (100, 50) = Fin 0"
  "offsetY (Fin 50) (100, 50) = Fin (25 / 2)"
proof -
  show sc: "scale (Fin 50) (100, 50) = Fin (1 / 2)"
    by (simp add: scale_def rnd_half rnd_eval num_min_def)
  show sw: "scaledWidth (Fin 50) (100, 50) = Fin 50"
    by (simp add: scaledWidth_def sc rnd_eval)
  show sh: "scaledHeight (Fin 50) (100, 50) = Fin 25"
    by (simp add: scaledHeight_def sc rnd_eval)
  show "offsetX (Fin 50) (100, 50) = Fin 0"
    by (simp add: offsetX_def sw rnd_eval)
  show "offsetY (Fin 50) (100, 50) = Fin (25 / 2)"
    by (simp add: offsetY_def sh rnd_eval rnd_25_2)
qed

lemma min_close:
  fixes a b ra rb :: rat
  assumes "0 \<le> a" "0 \<le> b" "\<bar>ra - a\<bar> \<le> a / 9007199254740992" "\<bar>rb - b\<bar> \<le> b / 9007199254740992"
  shows "\<bar>min ra rb - min a b\<bar> \<le> min a b / 9007199254740992"
proof -
  have a: "a - a / 9007199254740992 \<le> ra" "ra \<le> a + a / 9007199254740992"
    and b: "b - b / 9007199254740992 \<le> rb" "rb \<le> b + b / 9007199254740992"
    using assms(3,4) by linarith+
  define M where "M = min ra rb"
  show ?thesis
  proof (cases "a \<le> b")
    case True
    then have "a - a / 9007199254740992 \<le> b - b / 9007199254740992" by (simp add: field_simps)
    then have "a - a / 9007199254740992 \<le> M" "M \<le> a + a / 9007199254740992"
      using a b unfolding M_def by linarith+
    then have "\<bar>M - a\<bar> \<le> a / 9007199254740992" by linarith
    then show ?thesis using True by (simp add: M_def min_absorb1)
  next
    case False
    then have "b - b / 9007199254740992 \<le> a - a / 9007199254740992" by (simp add: field_simps)
    then have "b - b / 9007199254740992 \<le> M" "M \<le> b + b / 9007199254740992"
      using a b unfolding M_def by linarith+
    then have "\<bar>M - b\<bar> \<le> b / 9007199254740992" by linarith
    then show ?thesis using False by (simp add: M_def min_absorb2)
  qed
qed

lemma nat_bound: "n < 2 ^ 32 \<Longrightarrow> (of_nat n :: rat) < 4294967296"
proof -
  assume "n < 2 ^ 32"
  then have "n < 4294967296" by simp
  then have "(of_nat n :: rat) < of_nat 4294967296" by (simp only: of_nat_less_iff)
  then show ?thesis by simp
qed

lemma ratio_range:
  fixes s W :: rat
  assumes "1 \<le> s" "s < pow2 1022" "1 \<le> W" "W < 4294967296"
  shows "pow2 (- 1022) \<le> s / W" "s / W < pow2 1023" "1 / 4294967296 \<le> s / W" "s / W \<le> s"
proof -
  show l: "1 / 4294967296 \<le> s / W"
    using assms by (intro frac_le) simp_all
  have "pow2 (- 1022) \<le> pow2 (- 32)" by (intro pow2_mono) simp
  then show "pow2 (- 1022) \<le> s / W" using l unfolding pow2_m32 by linarith
  show u: "s / W \<le> s" using assms by (simp add: divide_le_eq mult_le_cancel_left1)
  show "s / W < pow2 1023" using u assms(2) pow2_small(2) by linarith
qed

lemma aspect_fit_bounds:
  fixes s :: rat
  assumes w: "0 < w" "w < 2 ^ 32" and h: "0 < h" "h < 2 ^ 32" and s: "1 \<le> s" "s < 2 ^ 1022"
  shows "\<exists>sc sw sh ox oy.
     scale (Fin s) (w, h) = Fin sc \<and> scaledWidth (Fin s) (w, h) = Fin sw \<and>
     scaledHeight (Fin s) (w, h) = Fin sh \<and> offsetX (Fin s) (w, h) = Fin ox \<and>
     offsetY (Fin s) (w, h) = Fin oy \<and>
     \<bar>sc - min (s / of_nat w) (s / of_nat h)\<bar> \<le> min (s / of_nat w) (s / of_nat h) / 2 ^ 53 \<and>
     \<bar>sw - of_nat w * min (s / of_nat w) (s / of_nat h)\<bar> \<le> s / 2 ^ 51 \<and>
     \<bar>sh - of_nat h * min (s / of_nat w) (s / of_nat h)\<bar> \<le> s / 2 ^ 51 \<and>
     sw \<le> s + s / 2 ^ 51 \<and> sh \<le> s + s / 2 ^ 51 \<and>
     (s - s / 2 ^ 51 \<le> sw \<or> s - s / 2 ^ 51 \<le> sh) \<and>
     \<bar>ox - (s - sw) / 2\<bar> \<le> s / 2 ^ 51 \<and> \<bar>oy - (s - sh) / 2\<bar> \<le> s / 2 ^ 51"
proof -
  define W :: rat where "W = of_nat w"
  define H :: rat where "H = of_nat h"
  have W: "1 \<le> W" "W < 4294967296" "W \<noteq> 0"
    using w nat_bound [of w] by (simp_all add: W_def)
  have H: "1 \<le> H" "H < 4294967296" "H \<noteq> 0"
    using h nat_bound [of h] by (simp_all add: H_def)
  have s': "s < pow2 1022" using s(2) by (simp add: pow2_def)
  define a where "a = s / W"
  define b where "b = s / H"
  define m where "m = min a b"
  note ra = ratio_range [OF s(1) s' W(1,2), folded a_def]
  note rb = ratio_range [OF s(1) s' H(1,2), folded b_def]
  from rnd_rel [OF ra(1,2)] obtain ra' where ra': "rnd a = Fin ra'" "\<bar>ra' - a\<bar> \<le> a / 2 ^ 53"
    by blast
  from rnd_rel [OF rb(1,2)] obtain rb' where rb': "rnd b = Fin rb'" "\<bar>rb' - b\<bar> \<le> b / 2 ^ 53"
    by blast
  define sc where "sc = min ra' rb'"
  have sc: "scale (Fin s) (w, h) = Fin sc"
    using W(3) H(3) ra'(1) rb'(1)
    by (simp add: scale_def num_min_def sc_def min_def flip: W_def H_def a_def b_def)
  have a0: "0 \<le> a" "0 \<le> b" using ra(3) rb(3) by linarith+
  have scm: "\<bar>sc - m\<bar> \<le> m / 9007199254740992"
    unfolding sc_def m_def using min_close [OF a0 ra'(2) [unfolded two_pow_53] rb'(2) [unfolded two_pow_53]] .
  have m1: "1 / 4294967296 \<le> m" using ra(3) rb(3) by (simp add: m_def)
  have Wa: "W * a = s" "H * b = s" using W(3) H(3) by (simp_all add: a_def b_def)
  have "W * m \<le> W * a" using W(1) by (intro mult_left_mono) (simp_all add: m_def)
  then have Wm: "W * m \<le> s" by (simp add: Wa)
  have "H * m \<le> H * b" using H(1) by (intro mult_left_mono) (simp_all add: m_def)
  then have Hm: "H * m \<le> s" by (simp add: Wa)
  have bind: "W * m = s \<or> H * m = s"
    using Wa by (cases "a \<le> b") (simp_all add: m_def min_def)
  from scaled_dim [OF W(1) s(1) s' m1 Wm scm] obtain sw ox where
    sw: "num_mul (Fin W) (Fin sc) = Fin sw" "num_div (num_sub (Fin s) (Fin sw)) (Fin 2) = Fin ox"
      "\<bar>sw - W * m\<bar> \<le> s / 2251799813685248" "sw \<le> s + s / 2251799813685248"
      "W * m = s \<longrightarrow> s - s / 2251799813685248 \<le> sw"
      "\<bar>ox - (s - sw) / 2\<bar> \<le> s / 2251799813685248"
    by blast
  from scaled_dim [OF H(1) s(1) s' m1 Hm scm] obtain sh oy where
    sh: "num_mul (Fin H) (Fin sc) = Fin sh" "num_div (num_sub (Fin s) (Fin sh)) (Fin 2) = Fin oy"
      "\<bar>sh - H * m\<bar> \<le> s / 2251799813685248" "sh \<le> s + s / 2251799813685248"
      "H * m = s \<longrightarrow> s - s / 2251799813685248 \<le> sh"
      "\<bar>oy - (s - sh) / 2\<bar> \<le> s / 2251799813685248"
    by blast
  have 1: "scaledWidth (Fin s) (w, h) = Fin sw"
    unfolding scaledWidth_def sc fst_conv W_def [symmetric] by (rule sw(1))
  have 2: "scaledHeight (Fin s) (w, h) = Fin sh"
    unfolding scaledHeight_def sc snd_conv H_def [symmetric] by (rule sh(1))
  have 3: "offsetX (Fin s) (w, h) = Fin ox" by (simp only: offsetX_def 1 sw(2))
  have 4: "offsetY (Fin s) (w, h) = Fin oy" by (simp only: offsetY_def 2 sh(2))
  have 5: "s - s / 2251799813685248 \<le> sw \<or> s - s / 2251799813685248 \<le> sh"
    using bind sw(5) sh(5) by blast
  show ?thesis
    unfolding two_pow_53 two_pow_51
    using sc 1 2 3 4 5 scm sw(3,4,6) sh(3,4,6)
    unfolding m_def a_def b_def W_def H_def by blast
qed

text \<open>
  C2, amended: for an image of positive width and height (below \<open>2 ^ 32\<close>, as the DOM
  reports them) and a target size \<open>s\<close> from 1 to below \<open>2 ^ 1022\<close>, the scale, the scaled
  width and height and the two offsets are finite and are the values of the formulas of the
  claim up to rounding: the scale is within the relative error \<open>2 ^ - 53\<close> of
  \<open>min (s / width) (s / height)\<close>, the scaled dimensions are within \<open>s / 2 ^ 51\<close> of the
  dimensions times that minimum, so both are at most \<open>s + s / 2 ^ 51\<close> and one of them is
  at least \<open>s - s / 2 ^ 51\<close>, and each offset is within \<open>s / 2 ^ 51\<close> of half the target
  size minus the scaled dimension.  For a 100 by 50 image and the target size 50 the values
  are exactly 0.5, 50, 25, 0 and 12.5.
\<close>

theorem aspect_fit_within_rounding:
  fixes s :: rat
  assumes "0 < w" and "w < 2 ^ 32" and "0 < h" and "h < 2 ^ 32" and "1 \<le> s" and "s < 2 ^ 1022"
  shows "(\<exists>sc sw sh ox oy.
     scale (Fin s) (w, h) = Fin sc \<and> scaledWidth (Fin s) (w, h) = Fin sw \<and>
     scaledHeight (Fin s) (w, h) = Fin sh \<and> offsetX (Fin s) (w, h) = Fin ox \<and>
     offsetY (Fin s) (w, h) = Fin oy \<and>
     \<bar>sc - min (s / of_nat w) (s / of_nat h)\<bar> \<le> min (s / of_nat w) (s / of_nat h) / 2 ^ 53 \<and>
     \<bar>sw - of_nat w * min (s / of_nat w) (s / of_nat h)\<bar> \<le> s / 2 ^ 51 \<and>
     \<bar>sh - of_nat h * min (s / of_nat w) (s / of_nat h)\<bar> \<le> s / 2 ^ 51 \<and>
     sw \<le> s + s / 2 ^ 51 \<and> sh \<le> s + s / 2 ^ 51 \<and>
     (s - s / 2 ^ 51 \<le> sw \<or> s - s / 2 ^ 51 \<le> sh) \<and>
     \<bar>ox - (s - sw) / 2\<bar> \<le> s / 2 ^ 51 \<and> \<bar>oy - (s - sh) / 2\<bar> \<le> s / 2 ^ 51) \<and>
   scale (Fin 50) (100, 50) = Fin (1 / 2) \<and> scaledWidth (Fin 50) (100, 50) = Fin 50 \<and>
   scaledHeight (Fin 50) (100, 50) = Fin 25 \<and> offsetX (Fin 50) (100, 50) = Fin 0 \<and>
   offsetY (Fin 50) (100, 50) = Fin (25 / 2)"
  using aspect_fit_bounds [OF assms] example_100_50 by simp

theorem aspect_fit_within_rounding_witness:
  "(0 :: nat) < 187 \<and> (187 :: nat) < 2 ^ 32 \<and> (1 :: rat) \<le> 48 \<and> (48 :: rat) < 2 ^ 1022 \<and>
   scaledWidth (Fin 48) (187, 187) = Fin (6755399441055745 / 140737488355328) \<and>
   (6755399441055745 / 140737488355328 :: rat) \<le> 48 + 48 / 2 ^ 51 \<and>
   48 - 48 / 2 ^ 51 \<le> (6755399441055745 / 140737488355328 :: rat)"
proof -
  have a: "(0 :: nat) < 187" "(187 :: nat) < 2 ^ 32" "(1 :: rat) \<le> 48" "(48 :: rat) < 2 ^ 1022"
    by simp_all
  from aspect_fit_within_rounding [OF a(1,2) a(1,2) a(3,4)]
  obtain sw sh :: rat where
    "scaledWidth (Fin 48) (187, 187) = Fin sw" "scaledHeight (Fin 48) (187, 187) = Fin sh"
    "sw \<le> 48 + 48 / 2 ^ 51" "48 - 48 / 2 ^ 51 \<le> sw \<or> 48 - 48 / 2 ^ 51 \<le> sh"
    by blast
  then have "(6755399441055745 / 140737488355328 :: rat) \<le> 48 + 48 / 2 ^ 51"
    "48 - 48 / 2 ^ 51 \<le> (6755399441055745 / 140737488355328 :: rat)"
    using scaledWidth_187_at_48 scaledHeight_187_at_48 by auto
  then show ?thesis using a scaledWidth_187_at_48 by simp
qed

end
